theory Spec2Isabelle
  imports Complex_Main "HOL-Library.Stream"
begin

section \<open>Numbers, errors and the random source\<close>

text \<open>
  Go's \<^verbatim>\<open>float64\<close>: a finite value, an infinity or NaN. The special values follow the rules
  of IEEE 754 for arithmetic and comparison. A finite value is a real number that binary64
  represents, and every operation rounds its exact result to the nearest such number, ties
  to the even mantissa, with overflow to an infinity. The two zeros are one value (a zero
  divisor counts as \<open>+0\<close>).
\<close>

datatype float64 = Fin real | PInf | NInf | NaN

text \<open>
  Rounding to binary64. \<open>exponent64 x\<close> is the binade of \<open>x\<close>, at least \<open>-1022\<close>: below
  \<open>2^-1022\<close> the subnormal numbers share the spacing of the lowest binade. \<open>quantum x\<close> is
  the spacing of the 53-bit mantissas there, and \<open>nearest64 x\<close> the multiple of it nearest to
  \<open>x\<close>. The largest finite value is \<open>2^1024 - 2^971\<close>; what rounds to \<open>2^1024\<close> overflows.
\<close>

definition round_even :: "real \<Rightarrow> int" where
  "round_even x =
     (let f = \<lfloor>x\<rfloor> in
      if x - of_int f < 1 / 2 then f
      else if 1 / 2 < x - of_int f then f + 1
      else if even f then f else f + 1)"

definition exponent64 :: "real \<Rightarrow> int" where
  "exponent64 x = (if \<bar>x\<bar> < 2 powi (- 1022) then - 1022 else \<lfloor>log 2 \<bar>x\<bar>\<rfloor>)"

definition quantum :: "real \<Rightarrow> real" where
  "quantum x = 2 powi (exponent64 x - 52)"

definition nearest64 :: "real \<Rightarrow> real" where
  "nearest64 x = of_int (round_even (x / quantum x)) * quantum x"

definition round64 :: "real \<Rightarrow> float64" where
  "round64 x =
     (let y = nearest64 x in
      if 2 powi 1024 \<le> y then PInf else if y \<le> - (2 powi 1024) then NInf else Fin y)"

definition representable :: "real \<Rightarrow> bool" where
  "representable y \<longleftrightarrow> \<bar>y\<bar> < 2 powi 1024 \<and> y / quantum y \<in> \<int>"

text \<open>
  The operations \<^verbatim>\<open>+\<close>, \<^verbatim>\<open>*\<close> and \<^verbatim>\<open>/\<close>, each rounded on its own (as the amd64 compiler
  emits them; where a compiler fuses \<open>x*y + z\<close> into one rounding, the sum differs in the last
  bit when the product is inexact).
\<close>

fun fadd :: "float64 \<Rightarrow> float64 \<Rightarrow> float64" where
  "fadd NaN _ = NaN"
| "fadd _ NaN = NaN"
| "fadd PInf NInf = NaN"
| "fadd NInf PInf = NaN"
| "fadd PInf _ = PInf"
| "fadd _ PInf = PInf"
| "fadd NInf _ = NInf"
| "fadd _ NInf = NInf"
| "fadd (Fin a) (Fin b) = round64 (a + b)"

fun fneg :: "float64 \<Rightarrow> float64" where
  "fneg NaN = NaN"
| "fneg PInf = NInf"
| "fneg NInf = PInf"
| "fneg (Fin a) = Fin (- a)"

fun inf_times :: "float64 \<Rightarrow> real \<Rightarrow> float64" where
  "inf_times i a = (if a = 0 then NaN else if 0 < a then i else fneg i)"

fun fmul :: "float64 \<Rightarrow> float64 \<Rightarrow> float64" where
  "fmul NaN _ = NaN"
| "fmul _ NaN = NaN"
| "fmul PInf PInf = PInf"
| "fmul PInf NInf = NInf"
| "fmul NInf PInf = NInf"
| "fmul NInf NInf = PInf"
| "fmul PInf (Fin b) = inf_times PInf b"
| "fmul NInf (Fin b) = inf_times NInf b"
| "fmul (Fin a) PInf = inf_times PInf a"
| "fmul (Fin a) NInf = inf_times NInf a"
| "fmul (Fin a) (Fin b) = round64 (a * b)"

fun fdiv :: "float64 \<Rightarrow> float64 \<Rightarrow> float64" where
  "fdiv NaN _ = NaN"
| "fdiv _ NaN = NaN"
| "fdiv PInf PInf = NaN"
| "fdiv PInf NInf = NaN"
| "fdiv NInf PInf = NaN"
| "fdiv NInf NInf = NaN"
| "fdiv PInf (Fin b) = (if 0 \<le> b then PInf else NInf)"
| "fdiv NInf (Fin b) = (if 0 \<le> b then NInf else PInf)"
| "fdiv (Fin a) PInf = Fin 0"
| "fdiv (Fin a) NInf = Fin 0"
| "fdiv (Fin a) (Fin b) =
     (if b = 0 then (if a = 0 then NaN else if 0 < a then PInf else NInf)
      else round64 (a / b))"

text \<open>
  \<^verbatim>\<open>math.Exp\<close>, with the special cases of the library in their order: the argument above
  \<open>Overflow\<close> gives \<open>+Inf\<close>, below \<open>Underflow\<close> gives 0, and nearer to zero than \<open>2^-28\<close>
  gives \<open>1 + x\<close>. The two thresholds are the float64 values of the library's constants
  \<open>7.09782712893383973096e+02\<close> and \<open>-7.45133219101941108420e+02\<close>. Elsewhere the library
  computes the exponential to within one unit of the last place; the model takes the
  correctly rounded value there, and the theorems use bounds on it only.
\<close>

definition Overflow :: real where
  "Overflow = 6243314768165359 / 8796093022208"

definition Underflow :: real where
  "Underflow = - (6554261109157969 / 8796093022208)"

definition NearZero :: real where
  "NearZero = 1 / 2 ^ 28"

fun fexp :: "float64 \<Rightarrow> float64" where
  "fexp NaN = NaN"
| "fexp PInf = PInf"
| "fexp NInf = Fin 0"
| "fexp (Fin a) =
     (if Overflow < a then PInf
      else if a < Underflow then Fin 0
      else if - NearZero < a \<and> a < NearZero then round64 (1 + a)
      else round64 (exp a))"

text \<open>The comparisons \<^verbatim>\<open><\<close>, \<^verbatim>\<open><=\<close>, \<^verbatim>\<open>>\<close>, \<^verbatim>\<open>>=\<close>: every comparison with NaN is false.\<close>

fun flt :: "float64 \<Rightarrow> float64 \<Rightarrow> bool" where
  "flt NaN _ = False"
| "flt _ NaN = False"
| "flt _ NInf = False"
| "flt NInf _ = True"
| "flt PInf _ = False"
| "flt (Fin a) PInf = True"
| "flt (Fin a) (Fin b) = (a < b)"

fun fle :: "float64 \<Rightarrow> float64 \<Rightarrow> bool" where
  "fle NaN _ = False"
| "fle _ NaN = False"
| "fle NInf _ = True"
| "fle _ NInf = False"
| "fle _ PInf = True"
| "fle PInf (Fin b) = False"
| "fle (Fin a) (Fin b) = (a \<le> b)"

definition fgt :: "float64 \<Rightarrow> float64 \<Rightarrow> bool" where
  "fgt x y = flt y x"

definition fge :: "float64 \<Rightarrow> float64 \<Rightarrow> bool" where
  "fge x y = fle y x"

text \<open>
  Go's \<^verbatim>\<open>int\<close> has 64 bits on the platforms of \<open>maxAlloc\<close> below, and its arithmetic wraps:
  \<open>wrap64 n\<close> is the \<^verbatim>\<open>int\<close> that a result \<open>n\<close> is stored as. The pull counters are
  incremented without a bound, so their sums are wrapped; lengths and indices stay below
  \<open>2^45\<close>.
\<close>

definition wrap64 :: "int \<Rightarrow> int" where
  "wrap64 n = (n + 2 ^ 63) mod 2 ^ 64 - 2 ^ 63"

text \<open>The conversion \<^verbatim>\<open>float64(n)\<close> of an \<^verbatim>\<open>int\<close>, which rounds.\<close>

definition float64_of_int :: "int \<Rightarrow> float64" where
  "float64_of_int n = round64 (of_int n)"

text \<open>
  \<^verbatim>\<open>make([]T, n)\<close> for an element of 8 bytes (\<^verbatim>\<open>int\<close>, \<^verbatim>\<open>float64\<close>) panics with
  \<^verbatim>\<open>len out of range\<close> when \<open>n\<close> is negative or the slice is larger than the run time's
  \<open>maxAlloc\<close>, which is \<open>2^48\<close> bytes on the 64-bit platforms (amd64, arm64). Running out of
  memory below that limit ends the process and is not modelled.
\<close>

definition maxAlloc :: int where
  "maxAlloc = 2 ^ 48"

definition make_panics :: "int \<Rightarrow> bool" where
  "make_panics n \<longleftrightarrow> n < 0 \<or> maxAlloc < 8 * n"

text \<open>
  A formatted text is kept as the call that produces it, the format and its arguments:
  \<^verbatim>\<open>fmt.Sprintf\<close> and \<^verbatim>\<open>fmt.Errorf\<close> are functions of exactly these. An error is a run-time
  panic (index out of range, \<^verbatim>\<open>make\<close> with a length out of range, \<^verbatim>\<open>Intn\<close> with a
  non-positive bound), an error built by \<^verbatim>\<open>fmt.Errorf\<close>, or the \<^verbatim>\<open>*strconv.NumError\<close>
  of \<^verbatim>\<open>strconv.Atoi\<close> (function, input, reason).
\<close>

datatype arg = StrArg string | IntArg int | FloatArg float64 | StrsArg "string list" | ErrArg error
and error = Panic | Errorf string "arg list" | NumError string string string

datatype formatted = Sprintf string "arg list"

text \<open>
  \<^verbatim>\<open>*rand.Rand\<close>: the generator is the stream of raw numbers it has yet to produce (the seed,
  taken from the clock, decides which stream). \<^verbatim>\<open>Float64\<close> returns a float in \<open>[0, 1)\<close> and
  \<^verbatim>\<open>Intn(n)\<close> panics for \<open>n \<le> 0\<close> and returns an integer in \<open>[0, n)\<close> otherwise; each
  consumes one raw number.
\<close>

type_synonym Rand = "nat stream"

definition Float64 :: "Rand \<Rightarrow> float64 \<times> Rand" where
  "Float64 r = (Fin (real (shd r mod 2 ^ 53) / 2 ^ 53), stl r)"

definition Intn :: "Rand \<Rightarrow> int \<Rightarrow> error + int \<times> Rand" where
  "Intn r n = (if n \<le> 0 then Inl Panic else Inr (int (shd r) mod n, stl r))"

section \<open>The epsilon-greedy bandit\<close>

record epsilonGreedy =
  e_counts :: "int list"
  e_values :: "float64 list"
  e_epsilon :: float64
  e_arms :: int
  e_rand :: Rand

text \<open>
  \<^verbatim>\<open>EpsilonGreedyNew(arms, epsilon)\<close>; the third argument is the generator seeded from the
  clock. With the error the source also returns an empty bandit, which is dropped here.
\<close>

definition EpsilonGreedyNew :: "int \<Rightarrow> float64 \<Rightarrow> Rand \<Rightarrow> error + epsilonGreedy" where
  "EpsilonGreedyNew arms epsilon seed =
     (if \<not> (fge epsilon (Fin 0) \<and> fle epsilon (Fin 1))
      then Inl (Errorf ''epsilon not in [0, 1]'' [])
      else if make_panics arms then Inl Panic
      else Inr \<lparr> e_counts = replicate (nat arms) 0,
                 e_values = replicate (nat arms) (Fin 0),
                 e_epsilon = epsilon,
                 e_arms = arms,
                 e_rand = seed \<rparr>)"

text \<open>
  The scan for the best arm, \<^verbatim>\<open>for i := range e.values\<close> with the candidate \<open>arm\<close>
  starting at 0. Inside the loop both indices are in range.
\<close>

definition best_arm :: "float64 list \<Rightarrow> nat" where
  "best_arm vs = fold (\<lambda>i arm. if fgt (vs ! i) (vs ! arm) then i else arm) [0..<length vs] 0"

text \<open>
  Index \<open>a\<close> holds the first maximal value among the first \<open>n\<close>: no value before
  index \<open>n\<close> is greater, and every value before \<open>a\<close> is smaller.
\<close>

definition first_maximal :: "float64 list \<Rightarrow> nat \<Rightarrow> nat \<Rightarrow> bool" where
  "first_maximal vs n a \<longleftrightarrow>
     (\<forall>j<n. fle (vs ! j) (vs ! a)) \<and> (\<forall>j<a. flt (vs ! j) (vs ! a))"

text \<open>
  \<^verbatim>\<open>SelectArm\<close> returns the ordinal and the bandit it leaves behind. Writing
  \<^verbatim>\<open>e.counts[arm]\<close> panics when \<open>arm\<close> is not an index of \<open>counts\<close>.
\<close>

definition epsilonGreedy_count :: "epsilonGreedy \<Rightarrow> int \<Rightarrow> error + int \<times> epsilonGreedy" where
  "epsilonGreedy_count e arm =
     (if 0 \<le> arm \<and> arm < int (length (e_counts e))
      then Inr (arm + 1, e\<lparr>e_counts := (e_counts e)[nat arm := wrap64 (e_counts e ! nat arm + 1)]\<rparr>)
      else Inl Panic)"

definition epsilonGreedy_SelectArm :: "epsilonGreedy \<Rightarrow> error + int \<times> epsilonGreedy" where
  "epsilonGreedy_SelectArm e =
     (case Float64 (e_rand e) of (u, r) \<Rightarrow>
        if fgt u (e_epsilon e)
        then epsilonGreedy_count (e\<lparr>e_rand := r\<rparr>) (int (best_arm (e_values e)))
        else (case Intn r (e_arms e) of
                Inl err \<Rightarrow> Inl err
              | Inr (arm, r') \<Rightarrow> epsilonGreedy_count (e\<lparr>e_rand := r'\<rparr>) arm))"

text \<open>
  \<^verbatim>\<open>Update\<close>: the counter is incremented first, then the mean is recomputed from the new
  count, in float64 arithmetic. Either index expression panics when \<open>arm - 1\<close> is out of
  range.
\<close>

definition epsilonGreedy_Update :: "epsilonGreedy \<Rightarrow> int \<Rightarrow> float64 \<Rightarrow> error + epsilonGreedy" where
  "epsilonGreedy_Update e arm0 reward =
     (let arm = arm0 - 1 in
      if \<not> (0 \<le> arm \<and> arm < int (length (e_counts e))) then Inl Panic
      else let count = wrap64 (e_counts e ! nat arm + 1) in
        if \<not> arm < int (length (e_values e)) then Inl Panic
        else Inr (e\<lparr> e_counts := (e_counts e)[nat arm := count],
                     e_values := (e_values e)[nat arm :=
                        fdiv (fadd (fmul (e_values e ! nat arm) (float64_of_int (wrap64 (count - 1)))) reward)
                             (float64_of_int count)] \<rparr>))"

definition epsilonGreedy_Version :: "epsilonGreedy \<Rightarrow> formatted" where
  "epsilonGreedy_Version e = Sprintf ''EpsilonGreedy(epsilon=%.2f)'' [FloatArg (e_epsilon e)]"

text \<open>\<^verbatim>\<open>Reset\<close>; the second argument is the generator seeded anew from the clock.\<close>

definition epsilonGreedy_Reset :: "epsilonGreedy \<Rightarrow> Rand \<Rightarrow> error + epsilonGreedy" where
  "epsilonGreedy_Reset e seed =
     (if make_panics (e_arms e) then Inl Panic
      else Inr (e\<lparr> e_counts := replicate (nat (e_arms e)) 0,
                   e_values := replicate (nat (e_arms e)) (Fin 0),
                   e_rand := seed \<rparr>))"

section \<open>The softmax bandit\<close>

record softmax =
  s_counts :: "int list"
  s_values :: "float64 list"
  s_tau :: float64
  s_arms :: int
  s_rand :: Rand

text \<open>The message of the source is \<^verbatim>\<open>"<tau> not in [0, <infinity>]"\<close>, here in its UTF-8 bytes.\<close>

definition tau_message :: string where
  "tau_message = [char_of (0xCF :: nat), char_of (0x84 :: nat)] @ '' not in [0, ''
     @ [char_of (0xE2 :: nat), char_of (0x88 :: nat), char_of (0x9E :: nat)] @ '']''"

definition SoftmaxNew :: "int \<Rightarrow> float64 \<Rightarrow> Rand \<Rightarrow> error + softmax" where
  "SoftmaxNew arms tau seed =
     (if \<not> fge tau (Fin 0)
      then Inl (Errorf tau_message [])
      else if make_panics arms then Inl Panic
      else Inr \<lparr> s_counts = replicate (nat arms) 0,
                 s_values = replicate (nat arms) (Fin 0),
                 s_tau = tau,
                 s_arms = arms,
                 s_rand = seed \<rparr>)"

text \<open>The first loop of \<^verbatim>\<open>SelectArm\<close>: the partition sum, accumulated from \<open>z\<close>.\<close>

fun partition_sum :: "float64 list \<Rightarrow> float64 \<Rightarrow> float64 \<Rightarrow> float64" where
  "partition_sum [] tau z = z"
| "partition_sum (v # vs) tau z = partition_sum vs tau (fadd z (fexp (fdiv v tau)))"

text \<open>The second loop appends one probability per value.\<close>

definition distribution :: "float64 list \<Rightarrow> float64 \<Rightarrow> float64 \<Rightarrow> float64 list" where
  "distribution vs tau z = map (\<lambda>v. fdiv (fexp (fdiv v tau)) z) vs"

text \<open>
  A weight \<open>exp(value/tau)\<close> that is at least 1: \<open>+Inf\<close>, or a representable number from 1
  on.
\<close>

definition at_least_one :: "float64 \<Rightarrow> bool" where
  "at_least_one e \<longleftrightarrow>
     (case e of Fin x \<Rightarrow> 1 \<le> x \<and> representable x | PInf \<Rightarrow> True | _ \<Rightarrow> False)"

text \<open>
  The third loop: \<open>Some i\<close> is the early \<^verbatim>\<open>return i\<close>, \<open>None\<close> is falling through. The
  running sum is compared with the partition sum \<open>z\<close>.
\<close>

fun sample_loop :: "float64 list \<Rightarrow> float64 \<Rightarrow> float64 \<Rightarrow> nat \<Rightarrow> nat option" where
  "sample_loop [] z accum i = None"
| "sample_loop (p # ps) z accum i =
     (if fgt (fadd accum p) z then Some i else sample_loop ps z (fadd accum p) (Suc i))"

text \<open>
  \<^verbatim>\<open>SelectArm\<close> of the softmax bandit reads the values and the temperature only: it
  writes nothing, draws nothing and cannot panic.
\<close>

definition softmax_SelectArm :: "softmax \<Rightarrow> error + int \<times> softmax" where
  "softmax_SelectArm s =
     (let z = partition_sum (s_values s) (s_tau s) (Fin 0);
          d = distribution (s_values s) (s_tau s) z
      in (case sample_loop d z (Fin 0) 0 of
            Some i \<Rightarrow> Inr (int i, s)
          | None \<Rightarrow> Inr (int (length d) - 1, s)))"

definition softmax_Update :: "softmax \<Rightarrow> int \<Rightarrow> float64 \<Rightarrow> error + softmax" where
  "softmax_Update s arm0 reward =
     (let arm = arm0 - 1 in
      if \<not> (0 \<le> arm \<and> arm < int (length (s_counts s))) then Inl Panic
      else let count = wrap64 (s_counts s ! nat arm + 1) in
        if \<not> arm < int (length (s_values s)) then Inl Panic
        else Inr (s\<lparr> s_counts := (s_counts s)[nat arm := count],
                     s_values := (s_values s)[nat arm :=
                        fdiv (fadd (fmul (s_values s ! nat arm) (float64_of_int (wrap64 (count - 1)))) reward)
                             (float64_of_int count)] \<rparr>))"

definition softmax_Version :: "softmax \<Rightarrow> formatted" where
  "softmax_Version s = Sprintf ''Softmax(tau=%.2f)'' [FloatArg (s_tau s)]"

definition softmax_Reset :: "softmax \<Rightarrow> Rand \<Rightarrow> error + softmax" where
  "softmax_Reset s seed =
     (if make_panics (s_arms s) then Inl Panic
      else Inr (s\<lparr> s_counts := replicate (nat (s_arms s)) 0,
                   s_values := replicate (nat (s_arms s)) (Fin 0),
                   s_rand := seed \<rparr>))"

section \<open>The Bandit interface\<close>

datatype Bandit = EpsilonGreedy epsilonGreedy | Softmax softmax

fun SelectArm :: "Bandit \<Rightarrow> error + int \<times> Bandit" where
  "SelectArm (EpsilonGreedy e) = map_sum id (map_prod id EpsilonGreedy) (epsilonGreedy_SelectArm e)"
| "SelectArm (Softmax s) = map_sum id (map_prod id Softmax) (softmax_SelectArm s)"

fun Update :: "Bandit \<Rightarrow> int \<Rightarrow> float64 \<Rightarrow> error + Bandit" where
  "Update (EpsilonGreedy e) arm reward = map_sum id EpsilonGreedy (epsilonGreedy_Update e arm reward)"
| "Update (Softmax s) arm reward = map_sum id Softmax (softmax_Update s arm reward)"

fun Reset :: "Bandit \<Rightarrow> Rand \<Rightarrow> error + Bandit" where
  "Reset (EpsilonGreedy e) seed = map_sum id EpsilonGreedy (epsilonGreedy_Reset e seed)"
| "Reset (Softmax s) seed = map_sum id Softmax (softmax_Reset s seed)"

fun Version :: "Bandit \<Rightarrow> formatted" where
  "Version (EpsilonGreedy e) = epsilonGreedy_Version e"
| "Version (Softmax s) = softmax_Version s"

text \<open>The fields both implementations have.\<close>

fun bandit_counts :: "Bandit \<Rightarrow> int list" where
  "bandit_counts (EpsilonGreedy e) = e_counts e"
| "bandit_counts (Softmax s) = s_counts s"

fun bandit_values :: "Bandit \<Rightarrow> float64 list" where
  "bandit_values (EpsilonGreedy e) = e_values e"
| "bandit_values (Softmax s) = s_values s"

fun bandit_arms :: "Bandit \<Rightarrow> int" where
  "bandit_arms (EpsilonGreedy e) = e_arms e"
| "bandit_arms (Softmax s) = s_arms s"

fun bandit_parameter :: "Bandit \<Rightarrow> float64" where
  "bandit_parameter (EpsilonGreedy e) = e_epsilon e"
| "bandit_parameter (Softmax s) = s_tau s"

text \<open>
  The state every constructor builds and every operation keeps: a number of arms that
  \<^verbatim>\<open>make\<close> accepts, and one counter and one mean per arm.
\<close>

definition well_formed :: "Bandit \<Rightarrow> bool" where
  "well_formed b \<longleftrightarrow>
     \<not> make_panics (bandit_arms b) \<and>
     length (bandit_counts b) = nat (bandit_arms b) \<and>
     length (bandit_values b) = nat (bandit_arms b)"

text \<open>
  A caller's sequence of calls on one bandit; a panic ends it. \<open>Updates\<close> is \<open>n\<close>
  consecutive calls \<^verbatim>\<open>Update(arm, r)\<close>.
\<close>

datatype call = CallSelectArm | CallUpdate int float64

fun step :: "Bandit \<Rightarrow> call \<Rightarrow> error + Bandit" where
  "step b CallSelectArm = map_sum id snd (SelectArm b)"
| "step b (CallUpdate arm reward) = Update b arm reward"

fun run :: "Bandit \<Rightarrow> call list \<Rightarrow> error + Bandit" where
  "run b [] = Inr b"
| "run b (c # cs) = (case step b c of Inl err \<Rightarrow> Inl err | Inr b' \<Rightarrow> run b' cs)"

fun Updates :: "Bandit \<Rightarrow> int \<Rightarrow> float64 \<Rightarrow> nat \<Rightarrow> error + Bandit" where
  "Updates b arm r 0 = Inr b"
| "Updates b arm r (Suc n) =
     (case Update b arm r of Inl err \<Rightarrow> Inl err | Inr b' \<Rightarrow> Updates b' arm r n)"

section \<open>Experiments, variants and trials\<close>

record Variant =
  Ordinal :: int
  URL :: string
  Tag :: string

record Experiment =
  Name :: string
  Variants :: "Variant list"

text \<open>
  \<^verbatim>\<open>GetVariant\<close>: the guard lets the ordinal 0 through, and \<^verbatim>\<open>e.Variants[ordinal-1]\<close>
  panics when \<open>ordinal - 1\<close> is not an index.
\<close>

definition GetVariant :: "Experiment \<Rightarrow> int \<Rightarrow> error + Variant" where
  "GetVariant e ordinal =
     (let l = int (length (Variants e)) in
      if ordinal < 0 \<or> ordinal > l
      then Inl (Errorf ''ordinal %d not in [1,%d]'' [IntArg ordinal, IntArg l])
      else if 0 \<le> ordinal - 1 \<and> ordinal - 1 < l
      then Inr (Variants e ! nat (ordinal - 1))
      else Inl Panic)"

record Trial =
  Bandit :: Bandit
  Experiment :: Experiment

text \<open>\<^verbatim>\<open>Trial.Select\<close>; the bandit is held by reference, so the trial sees what \<^verbatim>\<open>SelectArm\<close> wrote.\<close>

definition Select :: "Trial \<Rightarrow> error + Variant \<times> Trial" where
  "Select t =
     (case SelectArm (Bandit t) of
        Inl err \<Rightarrow> Inl err
      | Inr (selected, b) \<Rightarrow>
          (case GetVariant (Experiment t) selected of
             Inl err \<Rightarrow> Inl err
           | Inr v \<Rightarrow> Inr (v, t\<lparr>Bandit := b\<rparr>)))"

section \<open>Parsing experiments\<close>

text \<open>
  Library functions, on the bytes of a string. \<^verbatim>\<open>strconv.Atoi\<close>: an optional sign, then
  decimal digits, within 64 bits.
\<close>

definition is_digit :: "char \<Rightarrow> bool" where
  "is_digit c \<longleftrightarrow> (48 :: nat) \<le> of_char c \<and> of_char c \<le> (57 :: nat)"

definition digits_value :: "string \<Rightarrow> nat" where
  "digits_value ds = foldl (\<lambda>n c. 10 * n + (of_char c - 48)) 0 ds"

definition Atoi :: "string \<Rightarrow> error + int" where
  "Atoi s =
     (let signed = (s \<noteq> [] \<and> (hd s = CHR ''+'' \<or> hd s = CHR ''-''));
          ds = (if signed then tl s else s);
          n = (if s \<noteq> [] \<and> hd s = CHR ''-'' then - int (digits_value ds) else int (digits_value ds))
      in if ds = [] \<or> \<not> list_all is_digit ds then Inl (NumError ''Atoi'' s ''invalid syntax'')
         else if n < - (2 ^ 63) \<or> 2 ^ 63 \<le> n then Inl (NumError ''Atoi'' s ''value out of range'')
         else Inr n)"

text \<open>
  \<^verbatim>\<open>strings.Fields\<close> splits at the runes for which \<^verbatim>\<open>unicode.IsSpace\<close> holds: the six ASCII
  spaces, U+0085, U+00A0, U+1680, U+2000 to U+200A, U+2028, U+2029, U+202F, U+205F and
  U+3000. \<open>space_width\<close> is the length in bytes of the UTF-8 encoding of such a rune at the
  head of the bytes, or 0. Each encoding starts with an ASCII byte or a lead byte, which
  never stands inside another rune, and a byte that decodes to no rune counts as a rune
  that is no space; so matching the bytes at every position finds the spaces that decoding
  finds.
\<close>

fun space_width :: "nat list \<Rightarrow> nat" where
  "space_width [] = 0"
| "space_width (b # bs) =
     (if b \<in> {9, 10, 11, 12, 13, 32} then 1
      else if b = 0xC2 then
        (case bs of c # _ \<Rightarrow> if c = 0x85 \<or> c = 0xA0 then 2 else 0 | _ \<Rightarrow> 0)
      else if b = 0xE1 then
        (case bs of c # d # _ \<Rightarrow> if c = 0x9A \<and> d = 0x80 then 3 else 0 | _ \<Rightarrow> 0)
      else if b = 0xE2 then
        (case bs of
           c # d # _ \<Rightarrow>
             if c = 0x80 \<and> (0x80 \<le> d \<and> d \<le> 0x8A \<or> d = 0xA8 \<or> d = 0xA9 \<or> d = 0xAF) then 3
             else if c = 0x81 \<and> d = 0x9F then 3
             else 0
         | _ \<Rightarrow> 0)
      else if b = 0xE3 then
        (case bs of c # d # _ \<Rightarrow> if c = 0x80 \<and> d = 0x80 then 3 else 0 | _ \<Rightarrow> 0)
      else 0)"

text \<open>
  The fields of the bytes still to read; \<open>field\<close> is the field being read and \<open>skip\<close> the
  number of bytes left of the space being passed.
\<close>

fun fields_from :: "string \<Rightarrow> string \<Rightarrow> nat \<Rightarrow> string list" where
  "fields_from [] field skip = (if field = [] then [] else [field])"
| "fields_from (c # cs) field (Suc skip) = fields_from cs field skip"
| "fields_from (c # cs) field 0 =
     (let w = space_width (map of_char (c # cs)) in
      if w = 0 then fields_from cs (field @ [c]) 0
      else if field = [] then fields_from cs [] (w - 1)
      else field # fields_from cs [] (w - 1))"

definition Fields :: "string \<Rightarrow> string list" where
  "Fields s = fields_from s [] 0"

text \<open>\<^verbatim>\<open>strings.HasPrefix\<close>.\<close>

definition HasPrefix :: "string \<Rightarrow> string \<Rightarrow> bool" where
  "HasPrefix s p \<longleftrightarrow> take (length p) s = p"

text \<open>
  The intermediate map from experiment names to their variants, as an association list with
  one entry per name: \<^verbatim>\<open>variants[name] = append(variants[name], v)\<close>.
\<close>

type_synonym experimentVariants = "(string \<times> Variant list) list"

fun append_variant :: "experimentVariants \<Rightarrow> string \<Rightarrow> Variant \<Rightarrow> experimentVariants" where
  "append_variant [] name v = [(name, [v])]"
| "append_variant ((k, vs) # m) name v =
     (if k = name then (k, vs @ [v]) # m else (k, vs) # append_variant m name v)"

text \<open>The checks on record number \<open>i\<close>, in the order of the source.\<close>

definition parse_record :: "nat \<Rightarrow> string list \<Rightarrow> error + string \<times> Variant" where
  "parse_record i record =
     (if length record \<noteq> 4
      then Inl (Errorf ''record is not %v long: %v'' [IntArg (int (length record)), StrsArg record])
      else (case Atoi (record ! 1) of
        Inl err \<Rightarrow> Inl (Errorf ''invalid ordinal on line %n: %s'' [IntArg (int i), ErrArg err])
      | Inr ordinal \<Rightarrow>
          (let name = record ! 0; tag = record ! 3 in
           if length (Fields name) \<noteq> 1
           then Inl (Errorf ''experiment has whitespace: %s'' [StrArg name])
           else if length (Fields tag) \<noteq> 1
           then Inl (Errorf ''tag has whitespace: %s'' [StrArg tag])
           else if \<not> HasPrefix tag (name @ '':'')
           then Inl (Errorf (''tag must start with '' @ [CHR 0x27] @ ''%s:'' @ [CHR 0x27]) [StrArg name])
           else Inr (name, \<lparr> Ordinal = ordinal, URL = record ! 2, Tag = tag \<rparr>))))"

fun read_records :: "string list list \<Rightarrow> nat \<Rightarrow> experimentVariants \<Rightarrow> error + experimentVariants" where
  "read_records [] i m = Inr m"
| "read_records (record # records) i m =
     (case parse_record i record of
        Inl err \<Rightarrow> Inl err
      | Inr (name, v) \<Rightarrow> read_records records (Suc i) (append_variant m name v))"

text \<open>
  \<^verbatim>\<open>sort.Sort(variants)\<close> orders a group by ordinal, in place, so the map of groups sees the
  sorted slices too. The library's sort is not stable; the order it gives to variants of equal
  ordinal does not reach the result, which on success has no equal ordinals and on failure
  names an ordinal only. \<open>sort_key\<close> is one such sort.
\<close>

definition sort_groups :: "experimentVariants \<Rightarrow> experimentVariants" where
  "sort_groups m = map (\<lambda>(name, vs). (name, sort_key Ordinal vs)) m"

text \<open>The inner loop of the last check, from index \<open>i\<close>: the first ordinal that is not \<open>i + 1\<close>.\<close>

fun first_noncontiguous :: "Variant list \<Rightarrow> int \<Rightarrow> int option" where
  "first_noncontiguous [] i = None"
| "first_noncontiguous (v # vs) i =
     (if Ordinal v \<noteq> i + 1 then Some (Ordinal v) else first_noncontiguous vs (i + 1))"

fun check_contiguous :: "experimentVariants \<Rightarrow> error option" where
  "check_contiguous [] = None"
| "check_contiguous ((name, vs) # m) =
     (case first_noncontiguous vs 0 of
        Some ord \<Rightarrow> Some (Errorf ''%s: variant %d noncontiguous'' [StrArg name, IntArg ord])
      | None \<Rightarrow> check_contiguous m)"

text \<open>
  \<^verbatim>\<open>for name, variants := range variants\<close> visits the entries of a map in an order the
  run time picks: \<open>ks\<close> is that order of the names.
\<close>

definition range_map :: "experimentVariants \<Rightarrow> string list \<Rightarrow> experimentVariants" where
  "range_map m ks = List.map_filter (\<lambda>k. map_option (Pair k) (map_of m k)) ks"

text \<open>
  \<^verbatim>\<open>ParseExperiments\<close>, from the records the TSV reader returns (opening and reading the
  file are outside the model). \<open>ks\<close> is the order of the last loop over the map; the loop
  before it writes one entry per name, whatever its order. With an error the source returns
  an empty map, which is dropped here.
\<close>

definition ParseExperiments :: "string list list \<Rightarrow> string list \<Rightarrow> error + (string \<rightharpoonup> Experiment)" where
  "ParseExperiments records ks =
     (case read_records records 0 [] of
        Inl err \<Rightarrow> Inl err
      | Inr m \<Rightarrow>
          let variants = sort_groups m;
              experiments = map_of (map (\<lambda>(name, vs). (name, \<lparr> Name = name, Variants = vs \<rparr>)) variants)
          in (case check_contiguous (range_map variants ks) of
                Some err \<Rightarrow> Inl err
              | None \<Rightarrow> Inr experiments))"

section \<open>Rounding to binary64\<close>

lemma powi_powr: "(2::real) powi e = 2 powr (real_of_int e)"
  by (simp add: powr_real_of_int')

lemma powi_less_exp:
  assumes "(2::real) powi a < 2 powi b"
  shows "a < b"
proof (rule ccontr)
  assume "\<not> a < b"
  then have "b \<le> a" by simp
  then have "(2::real) powi b \<le> 2 powi a"
    by (rule power_int_increasing) simp
  with assms show False by simp
qed

lemma powi_le_exp:
  assumes "(2::real) powi a \<le> 2 powi b"
  shows "a \<le> b"
proof (rule ccontr)
  assume "\<not> a \<le> b"
  then have "b < a" by simp
  then have "(2::real) powi b < 2 powi a"
    by (rule power_int_strict_increasing) simp
  with assms show False by simp
qed

lemma powi_52: "(2::real) powi (e - 52) * 2 ^ 52 = 2 powi e"
proof -
  have "(2::real) powi (e - 52) * 2 powi 52 = 2 powi (e - 52 + 52)"
    by (subst power_int_add) simp_all
  then show ?thesis by simp
qed

lemma powi_53: "(2::real) powi (e - 52) * 2 ^ 53 = 2 powi (e + 1)"
proof -
  have "(2::real) powi (e - 52) * 2 powi 53 = 2 powi (e - 52 + 53)"
    by (subst power_int_add) simp_all
  moreover have "e - 52 + 53 = e + 1" by simp
  ultimately show ?thesis by simp
qed

lemma exponent64_eq:
  assumes "2 powi e \<le> \<bar>x\<bar>" and "\<bar>x\<bar> < 2 powi (e + 1)" and "- 1022 \<le> e"
  shows "exponent64 x = e"
proof -
  from assms(3) have "(2::real) powi (- 1022) \<le> 2 powi e"
    by (intro power_int_increasing) simp_all
  with assms(1) have ge: "\<not> \<bar>x\<bar> < 2 powi (- 1022)" by linarith
  have pos: "0 < \<bar>x\<bar>"
    using assms(1) zero_less_power_int [of "2::real" e] by linarith
  have "\<lfloor>log 2 \<bar>x\<bar>\<rfloor> = e"
    using assms(1,2) pos by (subst floor_log_eq_powr_iff) (simp_all add: powi_powr)
  with ge show ?thesis by (simp add: exponent64_def)
qed

lemma exponent64_small: "\<bar>x\<bar> < 2 powi (- 1022) \<Longrightarrow> exponent64 x = - 1022"
  by (simp add: exponent64_def)

lemma exponent64_normal:
  assumes "2 powi (- 1022) \<le> \<bar>x\<bar>"
  shows "2 powi exponent64 x \<le> \<bar>x\<bar>" and "\<bar>x\<bar> < 2 powi (exponent64 x + 1)"
    and "- 1022 \<le> exponent64 x"
proof -
  have pos: "0 < \<bar>x\<bar>"
    using assms zero_less_power_int [of "2::real" "- 1022"] by linarith
  from assms have e: "exponent64 x = \<lfloor>log 2 \<bar>x\<bar>\<rfloor>" by (simp add: exponent64_def)
  from pos have "2 powr real_of_int \<lfloor>log 2 \<bar>x\<bar>\<rfloor> \<le> \<bar>x\<bar> \<and> \<bar>x\<bar> < 2 powr real_of_int (\<lfloor>log 2 \<bar>x\<bar>\<rfloor> + 1)"
    using floor_log_eq_powr_iff [of "\<bar>x\<bar>" 2 "\<lfloor>log 2 \<bar>x\<bar>\<rfloor>"] by simp
  then show "2 powi exponent64 x \<le> \<bar>x\<bar>" and b2: "\<bar>x\<bar> < 2 powi (exponent64 x + 1)"
    by (simp_all add: e powi_powr)
  show "- 1022 \<le> exponent64 x"
  proof (rule ccontr)
    assume "\<not> - 1022 \<le> exponent64 x"
    then have "exponent64 x + 1 \<le> - 1022" by simp
    then have "(2::real) powi (exponent64 x + 1) \<le> 2 powi (- 1022)"
      by (intro power_int_increasing) simp_all
    with b2 assms show False by linarith
  qed
qed

lemma exponent64_lower: "- 1022 \<le> exponent64 x"
  using exponent64_normal(3) [of x] exponent64_small [of x]
  by (cases "\<bar>x\<bar> < 2 powi (- 1022)") simp_all

lemma abs_less_binade: "\<bar>x\<bar> < 2 powi (exponent64 x + 1)"
proof (cases "\<bar>x\<bar> < 2 powi (- 1022)")
  case True
  have "(2::real) powi (- 1022) \<le> 2 powi (- 1022 + 1)"
    by (intro power_int_increasing) simp_all
  with True show ?thesis by (simp add: exponent64_small)
next
  case False
  then show ?thesis using exponent64_normal(2) [of x] by simp
qed

lemma exponent64_mono:
  assumes "\<bar>x\<bar> \<le> \<bar>y\<bar>"
  shows "exponent64 x \<le> exponent64 y"
proof (cases "\<bar>x\<bar> < 2 powi (- 1022)")
  case True
  then show ?thesis by (simp add: exponent64_small exponent64_lower)
next
  case False
  then have nx: "2 powi (- 1022) \<le> \<bar>x\<bar>" by simp
  from exponent64_normal(1) [OF nx] assms abs_less_binade [of y]
  have "(2::real) powi exponent64 x < 2 powi (exponent64 y + 1)" by linarith
  from powi_less_exp [OF this] show ?thesis by simp
qed

lemma quantum_pos [simp]: "0 < quantum x"
  by (simp add: quantum_def)

lemma quantum_nonneg [simp]: "0 \<le> quantum x"
  using quantum_pos [of x] by (rule less_imp_le)

lemma quantum_nonzero [simp]: "quantum x \<noteq> 0"
  by (simp add: quantum_def)

lemma mantissa_bound: "\<bar>x / quantum x\<bar> < 2 ^ 53"
proof -
  have "quantum x * 2 ^ 53 = 2 powi (exponent64 x + 1)"
    unfolding quantum_def by (rule powi_53)
  with abs_less_binade [of x] have "\<bar>x\<bar> < quantum x * 2 ^ 53"
    by simp
  then show ?thesis by (simp add: abs_divide pos_divide_less_eq mult.commute)
qed

lemma round_even_of_int [simp]: "round_even (of_int k) = k"
  by (simp add: round_even_def)

lemma round_even_Ints: "x \<in> \<int> \<Longrightarrow> of_int (round_even x) = x"
  by (auto elim!: Ints_cases)

lemma round_even_floor: "\<lfloor>x\<rfloor> \<le> round_even x \<and> round_even x \<le> \<lfloor>x\<rfloor> + 1"
  by (simp add: round_even_def Let_def)

lemma round_even_mono:
  assumes "x \<le> y"
  shows "round_even x \<le> round_even y"
proof (cases "\<lfloor>x\<rfloor> = \<lfloor>y\<rfloor>")
  case True
  with assms show ?thesis
    by (auto simp: round_even_def Let_def)
next
  case False
  with assms have "\<lfloor>x\<rfloor> < \<lfloor>y\<rfloor>" by (simp add: floor_mono le_neq_trans)
  with round_even_floor [of x] round_even_floor [of y] show ?thesis by linarith
qed

lemma round_even_bound:
  assumes "\<bar>x\<bar> \<le> of_int k"
  shows "\<bar>round_even x\<bar> \<le> k"
proof -
  from assms have "x \<le> of_int k" "of_int (- k) \<le> x" by simp_all
  from round_even_mono [OF this(1)] round_even_mono [OF this(2)]
  have "round_even x \<le> k" "- k \<le> round_even x"
    unfolding round_even_of_int by simp_all
  then show ?thesis by simp
qed

text \<open>A representable number rounds to itself.\<close>

lemma round64_representable:
  assumes "representable y"
  shows "round64 y = Fin y"
proof -
  from assms have "of_int (round_even (y / quantum y)) = y / quantum y"
    by (simp add: representable_def round_even_Ints)
  then have "nearest64 y = y" by (simp add: nearest64_def)
  moreover from assms have "\<bar>y\<bar> < 2 powi 1024" by (simp add: representable_def)
  ultimately show ?thesis by (auto simp: round64_def Let_def)
qed

text \<open>The representable numbers: a mantissa of at most 53 bits at a scale of at least \<open>2^-1074\<close>.\<close>

lemma representable_mantissa:
  assumes "y = of_int m * 2 powi p" and "\<bar>m\<bar> \<le> 2 ^ 53" and "- 1074 \<le> p" and "\<bar>y\<bar> < 2 powi 1024"
  shows "representable y"
proof -
  let ?e = "exponent64 y"
  from assms(2) have m53: "\<bar>real_of_int m\<bar> \<le> 2 ^ 53"
    by (metis of_int_abs of_int_le_numeral_power_cancel_iff)
  have "y / quantum y \<in> \<int>"
  proof (cases "?e - 52 \<le> p")
    case True
    have "y / quantum y = of_int m * (2 powi p / 2 powi (?e - 52))"
      by (simp add: assms(1) quantum_def)
    also have "2 powi p / (2::real) powi (?e - 52) = 2 powi (p - (?e - 52))"
      by (subst power_int_diff) simp_all
    also from True have "\<dots> = 2 ^ nat (p - (?e - 52))"
      by (simp add: power_int_def)
    finally show ?thesis by simp
  next
    case False
    then have lt: "p + 52 < ?e" by simp
    with assms(3) have "- 1022 < ?e" by simp
    then have normal: "2 powi (- 1022) \<le> \<bar>y\<bar>"
      using exponent64_small [of y] by (cases "\<bar>y\<bar> < 2 powi (- 1022)") simp_all
    from exponent64_normal(1) [OF this]
    have le: "(2::real) powi ?e \<le> \<bar>real_of_int m\<bar> * 2 powi p"
      by (simp add: assms(1) abs_mult)
    also from m53 have "\<bar>of_int m\<bar> * 2 powi p \<le> 2 ^ 53 * (2::real) powi p"
      by (intro mult_right_mono) simp_all
    also have "\<dots> = 2 powi (p + 53)"
      by (subst power_int_add) (simp_all add: mult.commute)
    finally have "?e \<le> p + 53"
      by (rule powi_le_exp)
    with lt have e: "?e = p + 53" by simp
    have "(2::real) powi (p + 53) = 2 powi p * 2 ^ 53"
      by (subst power_int_add) simp_all
    with le e have "2 powi p * (2::real) ^ 53 \<le> \<bar>real_of_int m\<bar> * 2 powi p"
      by simp
    then have "(2::real) ^ 53 \<le> \<bar>real_of_int m\<bar>"
      by (simp add: mult.commute)
    with m53 have "\<bar>real_of_int m\<bar> = 2 ^ 53" by simp
    then have m: "real_of_int m = 2 ^ 53 \<or> real_of_int m = - (2 ^ 53)" by linarith
    have "?e - 52 = p + 1" using e by simp
    then have "quantum y = 2 powi (p + 1)" by (simp only: quantum_def)
    then have "y / quantum y = of_int m * (2 powi p / 2 powi (p + 1))"
      by (simp add: assms(1))
    also have "2 powi p / (2::real) powi (p + 1) = 1 / 2"
      by (subst power_int_add) simp_all
    finally have half: "y / quantum y = of_int m / 2" by simp
    from m have "real_of_int m / 2 = of_int (2 ^ 52) \<or> real_of_int m / 2 = of_int (- (2 ^ 52))"
      by auto
    then have "real_of_int m / 2 \<in> \<int>" by (metis Ints_of_int)
    then show ?thesis by (simp only: half)
  qed
  with assms(4) show ?thesis by (simp add: representable_def)
qed

lemma representable_has_mantissa:
  assumes "representable y"
  shows "\<exists>m p. y = of_int m * 2 powi p \<and> \<bar>m\<bar> \<le> 2 ^ 53 \<and> - 1074 \<le> p"
proof -
  from assms obtain m where m: "y / quantum y = of_int m"
    by (auto simp: representable_def elim!: Ints_cases)
  then have y: "y = of_int m * 2 powi (exponent64 y - 52)"
    by (simp add: quantum_def field_simps)
  from mantissa_bound [of y] m have "\<bar>real_of_int m\<bar> \<le> of_int (2 ^ 53)" by simp
  then have "\<bar>m\<bar> \<le> 2 ^ 53"
    by (metis of_int_abs of_int_le_iff)
  with y exponent64_lower [of y] show ?thesis
    by (intro exI [of _ m] exI [of _ "exponent64 y - 52"]) simp
qed

lemma nearest64_mantissa:
  "nearest64 x = of_int (round_even (x / quantum x)) * 2 powi (exponent64 x - 52) \<and>
   \<bar>round_even (x / quantum x)\<bar> \<le> 2 ^ 53 \<and> - 1074 \<le> exponent64 x - 52"
proof -
  have "\<bar>x / quantum x\<bar> \<le> of_int (2 ^ 53)"
    using mantissa_bound [of x] by simp
  from round_even_bound [OF this] exponent64_lower [of x] show ?thesis
    by (simp add: nearest64_def quantum_def)
qed

text \<open>Every finite result of rounding is representable.\<close>

lemma round64_Fin_representable:
  assumes "round64 x = Fin y"
  shows "representable y"
proof -
  from assms have y: "y = nearest64 x" and "\<not> 2 powi 1024 \<le> y" "\<not> y \<le> - (2 powi 1024)"
    by (auto simp: round64_def Let_def split: if_splits)
  then have "\<bar>y\<bar> < 2 powi 1024" by linarith
  with nearest64_mantissa [of x] y show ?thesis
    by (intro representable_mantissa [of y "round_even (x / quantum x)" "exponent64 x - 52"]) simp_all
qed

lemma representable_of_int:
  assumes "\<bar>k\<bar> \<le> 2 ^ 53"
  shows "representable (of_int k)"
proof -
  from assms have "\<bar>real_of_int k\<bar> \<le> 2 ^ 53"
    by (metis of_int_abs of_int_le_numeral_power_cancel_iff)
  also have "(2::real) ^ 53 < 2 ^ 1024" by simp
  finally have "\<bar>real_of_int k\<bar> < 2 powi 1024" by simp
  with assms show ?thesis
    by (intro representable_mantissa [of _ k 0]) simp_all
qed

lemma round64_of_int: "\<bar>k\<bar> \<le> 2 ^ 53 \<Longrightarrow> round64 (of_int k) = Fin (of_int k)"
  by (intro round64_representable representable_of_int)

lemma representable_double:
  assumes "representable y" and "\<bar>2 * y\<bar> < 2 powi 1024"
  shows "representable (2 * y)"
proof -
  from representable_has_mantissa [OF assms(1)] obtain m p where
    y: "y = of_int m * 2 powi p" and m: "\<bar>m\<bar> \<le> 2 ^ 53" and p: "- 1074 \<le> p"
    by blast
  have "(2::real) powi (p + 1) = 2 powi p * 2"
    by (subst power_int_add) simp_all
  with y have "2 * y = of_int m * 2 powi (p + 1)" by simp
  with m p assms(2) show ?thesis
    by (intro representable_mantissa [of _ m "p + 1"]) simp_all
qed

text \<open>Rounding is monotone; it is needed for numbers that are not negative only.\<close>

lemma nearest64_le_binade: "nearest64 x \<le> 2 powi (exponent64 x + 1)"
proof -
  have "x / quantum x \<le> \<bar>x / quantum x\<bar>" by (rule abs_ge_self)
  also have "\<dots> \<le> of_int (2 ^ 53)"
    using mantissa_bound [of x] by simp
  finally have "x / quantum x \<le> of_int (2 ^ 53)" .
  from round_even_mono [OF this] have "round_even (x / quantum x) \<le> 2 ^ 53"
    unfolding round_even_of_int .
  then have "real_of_int (round_even (x / quantum x)) \<le> 2 ^ 53"
    by (metis of_int_le_numeral_power_cancel_iff)
  then have "nearest64 x \<le> 2 ^ 53 * quantum x"
    unfolding nearest64_def by (intro mult_right_mono) simp_all
  also have "\<dots> = 2 powi (exponent64 x + 1)"
    unfolding quantum_def using powi_53 [of "exponent64 x"] by (simp add: mult.commute)
  finally show ?thesis .
qed

lemma nearest64_ge_binade:
  assumes "2 powi (- 1022) \<le> x"
  shows "2 powi exponent64 x \<le> nearest64 x"
proof -
  from assms have "0 \<le> x"
    using zero_less_power_int [of "2::real" "- 1022"] by linarith
  with assms have "2 powi (- 1022) \<le> \<bar>x\<bar>" by simp
  from exponent64_normal(1) [OF this] \<open>0 \<le> x\<close> have "2 powi exponent64 x \<le> x" by simp
  then have "quantum x * 2 ^ 52 \<le> x"
    unfolding quantum_def by (simp only: powi_52)
  then have "of_int (2 ^ 52) \<le> x / quantum x"
    by (simp add: pos_le_divide_eq mult.commute)
  from round_even_mono [OF this] have "2 ^ 52 \<le> round_even (x / quantum x)"
    unfolding round_even_of_int .
  then have "(2::real) ^ 52 \<le> real_of_int (round_even (x / quantum x))"
    by (metis numeral_power_le_of_int_cancel_iff)
  then have "2 ^ 52 * quantum x \<le> nearest64 x"
    unfolding nearest64_def by (intro mult_right_mono) simp_all
  moreover have "2 ^ 52 * quantum x = 2 powi exponent64 x"
    unfolding quantum_def using powi_52 [of "exponent64 x"] by (simp add: mult.commute)
  ultimately show ?thesis by simp
qed

lemma nearest64_nonneg:
  assumes "0 \<le> x"
  shows "0 \<le> nearest64 x"
proof -
  from assms have "of_int 0 \<le> x / quantum x" by simp
  from round_even_mono [OF this] have "0 \<le> round_even (x / quantum x)"
    unfolding round_even_of_int .
  then show ?thesis by (simp add: nearest64_def)
qed

lemma nearest64_mono:
  assumes "0 \<le> x" and "x \<le> y"
  shows "nearest64 x \<le> nearest64 y"
proof -
  from assms have "\<bar>x\<bar> \<le> \<bar>y\<bar>" by simp
  then have le: "exponent64 x \<le> exponent64 y" by (rule exponent64_mono)
  show ?thesis
  proof (cases "exponent64 x = exponent64 y")
    case True
    then have q: "quantum x = quantum y" by (simp add: quantum_def)
    from assms(2) have "x / quantum y \<le> y / quantum y"
      by (simp add: divide_right_mono)
    from round_even_mono [OF this] show ?thesis
      unfolding nearest64_def q by (intro mult_right_mono) simp_all
  next
    case False
    with le have lt: "exponent64 x + 1 \<le> exponent64 y" by simp
    then have "- 1022 < exponent64 y" using exponent64_lower [of x] by simp
    then have "\<not> \<bar>y\<bar> < 2 powi (- 1022)"
      using exponent64_small [of y] by auto
    with assms have ny: "2 powi (- 1022) \<le> y" by simp
    have "nearest64 x \<le> 2 powi (exponent64 x + 1)"
      by (rule nearest64_le_binade)
    also from lt have "\<dots> \<le> 2 powi exponent64 y"
      by (intro power_int_increasing) simp_all
    also have "\<dots> \<le> nearest64 y"
      using ny by (rule nearest64_ge_binade)
    finally show ?thesis .
  qed
qed

lemma round64_mono:
  assumes "0 \<le> x" and "x \<le> y"
  shows "fle (round64 x) (round64 y)"
proof -
  from nearest64_mono [OF assms] nearest64_nonneg [OF assms(1)]
  have "nearest64 x \<le> nearest64 y" "0 \<le> nearest64 x" by simp_all
  moreover have "- (2 powi 1024) < (0::real)" by simp
  ultimately show ?thesis
    by (auto simp: round64_def Let_def)
qed

lemma round64_nonneg:
  assumes "0 \<le> x"
  shows "round64 x = PInf \<or> (\<exists>y. round64 x = Fin y \<and> 0 \<le> y)"
  using nearest64_nonneg [OF assms] by (auto simp: round64_def Let_def)

text \<open>The numbers the examples compute with.\<close>

lemma round64_0 [simp]: "round64 0 = Fin 0"
  using round64_of_int [of 0] by simp

lemma round64_1 [simp]: "round64 1 = Fin 1"
  using round64_of_int [of 1] by simp

lemma round64_numeral [simp]:
  "(numeral n :: int) \<le> 2 ^ 53 \<Longrightarrow> round64 (numeral n) = Fin (numeral n)"
  using round64_of_int [of "numeral n"] by simp

lemma round64_neg_numeral [simp]:
  "(numeral n :: int) \<le> 2 ^ 53 \<Longrightarrow> round64 (- numeral n) = Fin (- numeral n)"
  using round64_of_int [of "- numeral n"] by simp

lemma round64_half [simp]: "round64 (1 / 2) = Fin (1 / 2)"
proof -
  have "representable (1 / 2)"
    by (rule representable_mantissa [of _ 1 "- 1"]) simp_all
  then show ?thesis by (rule round64_representable)
qed

lemma float64_of_int_exact: "\<bar>k\<bar> \<le> 2 ^ 53 \<Longrightarrow> float64_of_int k = Fin (of_int k)"
  by (simp add: float64_of_int_def round64_of_int)

lemma float64_of_int_0 [simp]: "float64_of_int 0 = Fin 0"
  using float64_of_int_exact [of 0] by simp

lemma float64_of_int_1 [simp]: "float64_of_int 1 = Fin 1"
  using float64_of_int_exact [of 1] by simp

lemma float64_of_int_numeral [simp]:
  "(numeral n :: int) \<le> 2 ^ 53 \<Longrightarrow> float64_of_int (numeral n) = Fin (numeral n)"
  using float64_of_int_exact [of "numeral n"] by simp

section \<open>Counters that do not wrap\<close>

lemma wrap64_id [simp]: "- (2 ^ 63) \<le> n \<Longrightarrow> n < 2 ^ 63 \<Longrightarrow> wrap64 n = n"
  by (simp add: wrap64_def)

section \<open>What the calls leave unchanged\<close>

lemma EpsilonGreedyNew_well_formed:
  "EpsilonGreedyNew n epsilon seed = Inr e \<Longrightarrow> well_formed (EpsilonGreedy e)"
  by (auto simp: EpsilonGreedyNew_def well_formed_def split: if_splits)

lemma SoftmaxNew_well_formed:
  "SoftmaxNew n tau seed = Inr s \<Longrightarrow> well_formed (Softmax s)"
  by (auto simp: SoftmaxNew_def well_formed_def split: if_splits)

lemma epsilonGreedy_count_frame:
  assumes "epsilonGreedy_count e arm = Inr (r, e')"
  shows "length (e_counts e') = length (e_counts e) \<and> e_values e' = e_values e \<and>
         e_arms e' = e_arms e \<and> e_epsilon e' = e_epsilon e"
  using assms by (auto simp: epsilonGreedy_count_def split: if_splits)

lemma epsilonGreedy_SelectArm_frame:
  assumes "epsilonGreedy_SelectArm e = Inr (r, e')"
  shows "length (e_counts e') = length (e_counts e) \<and> e_values e' = e_values e \<and>
         e_arms e' = e_arms e \<and> e_epsilon e' = e_epsilon e"
  using assms
  by (auto simp: epsilonGreedy_SelectArm_def split: prod.splits if_splits sum.splits
           dest!: epsilonGreedy_count_frame)

lemma softmax_SelectArm_frame:
  assumes "softmax_SelectArm s = Inr (r, s')"
  shows "s' = s"
  using assms by (auto simp: softmax_SelectArm_def Let_def split: option.splits)

lemma SelectArm_frame:
  assumes "SelectArm b = Inr (r, b')"
  shows "length (bandit_counts b') = length (bandit_counts b) \<and> bandit_values b' = bandit_values b \<and>
         bandit_arms b' = bandit_arms b \<and> bandit_parameter b' = bandit_parameter b \<and>
         Version b' = Version b"
proof (cases b)
  case (EpsilonGreedy e)
  with assms obtain e' where "epsilonGreedy_SelectArm e = Inr (r, e')" "b' = EpsilonGreedy e'"
    by (cases "epsilonGreedy_SelectArm e") auto
  with EpsilonGreedy epsilonGreedy_SelectArm_frame [of e r e'] show ?thesis
    by (simp add: epsilonGreedy_Version_def)
next
  case (Softmax s)
  with assms obtain s' where "softmax_SelectArm s = Inr (r, s')" "b' = Softmax s'"
    by (cases "softmax_SelectArm s") auto
  with Softmax softmax_SelectArm_frame [of s r s'] show ?thesis
    by simp
qed

lemma Update_frame:
  assumes "Update b arm reward = Inr b'"
  shows "length (bandit_counts b') = length (bandit_counts b) \<and>
         length (bandit_values b') = length (bandit_values b) \<and>
         bandit_arms b' = bandit_arms b \<and> bandit_parameter b' = bandit_parameter b \<and>
         Version b' = Version b"
proof (cases b)
  case (EpsilonGreedy e)
  with assms show ?thesis
    by (auto simp: epsilonGreedy_Update_def Let_def epsilonGreedy_Version_def split: if_splits)
next
  case (Softmax s)
  with assms show ?thesis
    by (auto simp: softmax_Update_def Let_def softmax_Version_def split: if_splits)
qed

lemma step_frame:
  assumes "step b c = Inr b'"
  shows "length (bandit_counts b') = length (bandit_counts b) \<and>
         length (bandit_values b') = length (bandit_values b) \<and>
         bandit_arms b' = bandit_arms b \<and> bandit_parameter b' = bandit_parameter b \<and>
         Version b' = Version b"
proof (cases c)
  case CallSelectArm
  with assms obtain r where "SelectArm b = Inr (r, b')"
    by (cases "SelectArm b") auto
  from SelectArm_frame [OF this] show ?thesis by simp
next
  case (CallUpdate arm reward)
  with assms Update_frame [of b arm reward b'] show ?thesis by simp
qed

lemma run_frame:
  assumes "run b cs = Inr b'"
  shows "length (bandit_counts b') = length (bandit_counts b) \<and>
         length (bandit_values b') = length (bandit_values b) \<and>
         bandit_arms b' = bandit_arms b \<and> bandit_parameter b' = bandit_parameter b \<and>
         Version b' = Version b"
  using assms
proof (induction cs arbitrary: b)
  case Nil
  then show ?case by simp
next
  case (Cons c cs)
  then obtain b1 where s: "step b c = Inr b1" and r: "run b1 cs = Inr b'"
    by (auto split: sum.splits)
  from step_frame [OF s] Cons.IH [OF r] show ?case by simp
qed

lemma run_well_formed:
  assumes "well_formed b" and "run b cs = Inr b'"
  shows "well_formed b'"
  using assms run_frame [of b cs b'] by (simp add: well_formed_def)

section \<open>Arithmetic with NaN\<close>

lemma fadd_NaN_right [simp]: "fadd x NaN = NaN"
  by (cases x) simp_all

lemma flt_NaN_right [simp]: "flt x NaN = False"
  by (cases x) simp_all

lemma partition_sum_NaN: "partition_sum vs tau NaN = NaN"
  by (induction vs) simp_all

lemma sample_loop_NaN: "sample_loop (replicate k NaN) z accum i = None"
  by (induction k arbitrary: accum i) (simp_all add: fgt_def)

section \<open>The ordinal returned by SelectArm\<close>

text \<open>
  The epsilon-greedy bandit: with at least one arm, \<^verbatim>\<open>SelectArm\<close> returns an ordinal in
  \<open>[1, arms]\<close> and adds one to the counter of that arm, on either branch.
\<close>

lemma best_arm_in_range:
  assumes "vs \<noteq> []"
  shows "best_arm vs < length vs"
proof -
  have "fold (\<lambda>i arm. if fgt (vs ! i) (vs ! arm) then i else arm) [0..<n] 0 < length vs"
    if "n \<le> length vs" for n
    using that assms by (induction n) simp_all
  then show ?thesis by (simp add: best_arm_def)
qed

lemma epsilonGreedy_SelectArm_ordinal:
  assumes "well_formed (EpsilonGreedy e)" and "1 \<le> e_arms e"
  shows "\<exists>r e'. epsilonGreedy_SelectArm e = Inr (r, e') \<and> 1 \<le> r \<and> r \<le> e_arms e \<and>
           e_counts e' = (e_counts e)[nat (r - 1) := wrap64 (e_counts e ! nat (r - 1) + 1)]"
proof (cases "Float64 (e_rand e)")
  case (Pair u g)
  from assms have len: "length (e_counts e) = nat (e_arms e)" "length (e_values e) = nat (e_arms e)"
    by (simp_all add: well_formed_def)
  show ?thesis
  proof (cases "fgt u (e_epsilon e)")
    case True
    from len assms(2) have "e_values e \<noteq> []" by auto
    from best_arm_in_range [OF this] len have "int (best_arm (e_values e)) < e_arms e" by simp
    with True Pair len show ?thesis
      by (simp add: epsilonGreedy_SelectArm_def epsilonGreedy_count_def)
  next
    case False
    from assms(2) have "0 \<le> int (shd g) mod e_arms e" "int (shd g) mod e_arms e < e_arms e"
      by simp_all
    with False Pair len assms(2) show ?thesis
      by (simp add: epsilonGreedy_SelectArm_def epsilonGreedy_count_def Intn_def)
  qed
qed

text \<open>
  Claim C1: \<^verbatim>\<open>SelectArm\<close> returns a 1-based ordinal in \<open>[1, arms]\<close>, for both strategies.
  The softmax bandit returns the 0-based index instead (the epsilon-greedy one returns
  \<open>arm + 1\<close>): a softmax bandit just constructed with one arm and temperature 1 returns 0.
\<close>

theorem softmax_SelectArm_one_arm_returns_zero:
  "SoftmaxNew 1 (Fin 1) seed =
     Inr \<lparr>s_counts = [0], s_values = [Fin 0], s_tau = Fin 1, s_arms = 1, s_rand = seed\<rparr> \<and>
   SelectArm (Softmax \<lparr>s_counts = [0], s_values = [Fin 0], s_tau = Fin 1, s_arms = 1, s_rand = seed\<rparr>) =
     Inr (0, Softmax \<lparr>s_counts = [0], s_values = [Fin 0], s_tau = Fin 1, s_arms = 1, s_rand = seed\<rparr>)"
  by (simp add: SoftmaxNew_def make_panics_def maxAlloc_def fge_def softmax_SelectArm_def
        distribution_def fgt_def Overflow_def Underflow_def NearZero_def)

section \<open>The pull counters\<close>

text \<open>
  Claim C3: \<^verbatim>\<open>SelectArm\<close> increments the pull counter of the arm it returns, for both
  strategies. The softmax bandit writes no counter (the epsilon-greedy one does): on a
  softmax bandit just constructed with two arms and temperature 1, \<^verbatim>\<open>SelectArm\<close> returns 1
  and leaves both counters at 0.
\<close>

theorem softmax_SelectArm_leaves_counts:
  "SoftmaxNew 2 (Fin 1) seed =
     Inr \<lparr>s_counts = [0, 0], s_values = [Fin 0, Fin 0], s_tau = Fin 1, s_arms = 2, s_rand = seed\<rparr> \<and>
   SelectArm (Softmax \<lparr>s_counts = [0, 0], s_values = [Fin 0, Fin 0], s_tau = Fin 1, s_arms = 2, s_rand = seed\<rparr>) =
     Inr (1, Softmax \<lparr>s_counts = [0, 0], s_values = [Fin 0, Fin 0], s_tau = Fin 1, s_arms = 2, s_rand = seed\<rparr>)"
  by (simp add: SoftmaxNew_def make_panics_def maxAlloc_def fge_def softmax_SelectArm_def
        distribution_def fgt_def Overflow_def Underflow_def NearZero_def numeral_2_eq_2)

section \<open>Ordinals outside the experiment\<close>

text \<open>
  Claim C5: \<^verbatim>\<open>GetVariant\<close> returns an error for every ordinal outside \<open>[1, len(Variants)]\<close>,
  the ordinal 0 included. The guard tests \<open>ordinal < 0\<close>, so the ordinal 0 passes it and the
  index \<open>-1\<close> panics, in every experiment; so does \<^verbatim>\<open>Trial.Select\<close> on a softmax bandit
  with one arm, which returns 0.
\<close>

theorem GetVariant_zero_panics:
  "GetVariant e 0 = Inl Panic \<and>
   Select \<lparr>Bandit = Softmax \<lparr>s_counts = [0], s_values = [Fin 0], s_tau = Fin 1, s_arms = 1,
                                 s_rand = seed\<rparr>,
           Experiment = e\<rparr> = Inl Panic"
  by (simp add: GetVariant_def Select_def softmax_SelectArm_def distribution_def fgt_def
        Overflow_def Underflow_def NearZero_def)

section \<open>The constructors\<close>

text \<open>
  Claim C7, as stated: \<^verbatim>\<open>SoftmaxNew\<close> fails with a construction error exactly when
  \<open>tau < 0\<close> does not hold. At \<open>tau = 1\<close> it does not hold, and the constructor succeeds.
\<close>

theorem SoftmaxNew_fails_counterexample:
  "\<not> (isl (SoftmaxNew 1 (Fin 1) (sconst 0)) \<longleftrightarrow> \<not> flt (Fin 1) (Fin 0))"
  by (simp add: SoftmaxNew_def make_panics_def maxAlloc_def fge_def)

text \<open>
  Claim C7, amended: \<^verbatim>\<open>EpsilonGreedyNew\<close> fails with a construction error exactly when
  epsilon is not a number in \<open>[0, 1]\<close>, and \<^verbatim>\<open>SoftmaxNew\<close> exactly when \<open>tau >= 0\<close> does not
  hold (tau is negative or NaN); for a parameter in the domain and a number of arms that
  \<^verbatim>\<open>make\<close> accepts (not negative and, on a 64-bit platform, at most \<open>2^45\<close>) each
  constructor returns a bandit with \<open>arms\<close> counts and values, all zero.
\<close>

theorem constructors_fail_outside_domain:
  "((\<exists>f a. EpsilonGreedyNew n epsilon seed = Inl (Errorf f a)) \<longleftrightarrow>
      \<not> (case epsilon of Fin x \<Rightarrow> 0 \<le> x \<and> x \<le> 1 | _ \<Rightarrow> False)) \<and>
   ((\<exists>f a. SoftmaxNew n tau seed = Inl (Errorf f a)) \<longleftrightarrow>
      \<not> (case tau of Fin x \<Rightarrow> 0 \<le> x | PInf \<Rightarrow> True | _ \<Rightarrow> False)) \<and>
   (0 \<le> n \<and> n \<le> 2 ^ 45 \<and> (case epsilon of Fin x \<Rightarrow> 0 \<le> x \<and> x \<le> 1 | _ \<Rightarrow> False) \<longrightarrow>
      EpsilonGreedyNew n epsilon seed =
        Inr \<lparr> e_counts = replicate (nat n) 0, e_values = replicate (nat n) (Fin 0),
              e_epsilon = epsilon, e_arms = n, e_rand = seed \<rparr>) \<and>
   (0 \<le> n \<and> n \<le> 2 ^ 45 \<and> (case tau of Fin x \<Rightarrow> 0 \<le> x | PInf \<Rightarrow> True | _ \<Rightarrow> False) \<longrightarrow>
      SoftmaxNew n tau seed =
        Inr \<lparr> s_counts = replicate (nat n) 0, s_values = replicate (nat n) (Fin 0),
              s_tau = tau, s_arms = n, s_rand = seed \<rparr>)"
proof -
  have e: "(fge epsilon (Fin 0) \<and> fle epsilon (Fin 1)) \<longleftrightarrow>
           (case epsilon of Fin x \<Rightarrow> 0 \<le> x \<and> x \<le> 1 | _ \<Rightarrow> False)"
    by (cases epsilon) (simp_all add: fge_def)
  have t: "fge tau (Fin 0) \<longleftrightarrow> (case tau of Fin x \<Rightarrow> 0 \<le> x | PInf \<Rightarrow> True | _ \<Rightarrow> False)"
    by (cases tau) (simp_all add: fge_def)
  have m: "0 \<le> n \<and> n \<le> 2 ^ 45 \<longrightarrow> \<not> make_panics n"
    by (simp add: make_panics_def maxAlloc_def)
  show ?thesis
    unfolding e [symmetric] t [symmetric]
    using m by (simp add: EpsilonGreedyNew_def SoftmaxNew_def)
qed

theorem constructors_fail_outside_domain_witness:
  "EpsilonGreedyNew 2 (Fin (1/2)) (sconst 0) =
     Inr \<lparr> e_counts = [0, 0], e_values = [Fin 0, Fin 0],
           e_epsilon = Fin (1/2), e_arms = 2, e_rand = sconst 0 \<rparr> \<and>
   SoftmaxNew 2 (Fin 0) (sconst 0) =
     Inr \<lparr> s_counts = [0, 0], s_values = [Fin 0, Fin 0],
           s_tau = Fin 0, s_arms = 2, s_rand = sconst 0 \<rparr> \<and>
   (\<exists>f a. EpsilonGreedyNew 2 NaN (sconst 0) = Inl (Errorf f a)) \<and>
   (\<exists>f a. SoftmaxNew 2 (Fin (- 1)) (sconst 0) = Inl (Errorf f a))"
  using constructors_fail_outside_domain [of 2 "Fin (1/2)" "sconst 0" "Fin 0"]
    constructors_fail_outside_domain [of 2 NaN "sconst 0" "Fin (- 1)"]
  by (simp add: numeral_2_eq_2)

section \<open>Reset\<close>

text \<open>
  Claim C9: after any sequence of \<^verbatim>\<open>SelectArm\<close> and \<^verbatim>\<open>Update\<close> calls that a bandit went
  through, \<^verbatim>\<open>Reset\<close> sets every count and every value to zero and leaves the policy
  parameter (epsilon or tau) and the \<^verbatim>\<open>Version()\<close> text as they were.
\<close>

theorem Reset_zeroes_and_keeps_parameter:
  assumes "well_formed b0" and "run b0 cs = Inr b"
  shows "\<exists>b'. Reset b seed = Inr b' \<and>
           bandit_counts b' = replicate (nat (bandit_arms b)) 0 \<and>
           bandit_values b' = replicate (nat (bandit_arms b)) (Fin 0) \<and>
           bandit_arms b' = bandit_arms b \<and>
           bandit_parameter b' = bandit_parameter b \<and>
           Version b' = Version b \<and> Version b' = Version b0"
proof -
  from assms have wf: "well_formed b" by (rule run_well_formed)
  from run_frame [OF assms(2)] have fr: "Version b = Version b0" by simp
  show ?thesis
  proof (cases b)
    case (EpsilonGreedy e)
    with wf fr show ?thesis
      by (auto simp: well_formed_def epsilonGreedy_Reset_def epsilonGreedy_Version_def)
  next
    case (Softmax s)
    with wf fr show ?thesis
      by (auto simp: well_formed_def softmax_Reset_def softmax_Version_def)
  qed
qed

theorem Reset_zeroes_and_keeps_parameter_witness:
  "well_formed (EpsilonGreedy \<lparr>e_counts = [0, 0], e_values = [Fin 0, Fin 0],
                    e_epsilon = Fin (1/2), e_arms = 2, e_rand = sconst 0\<rparr>) \<and>
   run (EpsilonGreedy \<lparr>e_counts = [0, 0], e_values = [Fin 0, Fin 0],
                    e_epsilon = Fin (1/2), e_arms = 2, e_rand = sconst 0\<rparr>)
       [CallSelectArm, CallUpdate 1 (Fin 1)] =
     Inr (EpsilonGreedy \<lparr>e_counts = [2, 0], e_values = [Fin (1/2), Fin 0],
                    e_epsilon = Fin (1/2), e_arms = 2, e_rand = sconst 0\<rparr>) \<and>
   Reset (EpsilonGreedy \<lparr>e_counts = [2, 0], e_values = [Fin (1/2), Fin 0],
                    e_epsilon = Fin (1/2), e_arms = 2, e_rand = sconst 0\<rparr>) (sconst 1) =
     Inr (EpsilonGreedy \<lparr>e_counts = [0, 0], e_values = [Fin 0, Fin 0],
                    e_epsilon = Fin (1/2), e_arms = 2, e_rand = sconst 1\<rparr>)"
proof -
  let ?fresh = "EpsilonGreedy \<lparr>e_counts = [0, 0], e_values = [Fin 0, Fin 0],
                    e_epsilon = Fin (1/2), e_arms = 2, e_rand = sconst 0\<rparr>"
  let ?used = "EpsilonGreedy \<lparr>e_counts = [2, 0], e_values = [Fin (1/2), Fin 0],
                    e_epsilon = Fin (1/2), e_arms = 2, e_rand = sconst 0\<rparr>"
  have wf: "well_formed ?fresh"
    by (simp add: well_formed_def make_panics_def maxAlloc_def)
  have r: "run ?fresh [CallSelectArm, CallUpdate 1 (Fin 1)] = Inr ?used"
    by (simp add: epsilonGreedy_SelectArm_def Float64_def fgt_def Intn_def epsilonGreedy_count_def
          epsilonGreedy_Update_def)
  from Reset_zeroes_and_keeps_parameter [OF wf r, of "sconst 1"]
  obtain b' where b': "Reset ?used (sconst 1) = Inr b'"
    and c: "bandit_counts b' = replicate (nat (bandit_arms ?used)) 0"
    and v: "bandit_values b' = replicate (nat (bandit_arms ?used)) (Fin 0)"
    by blast
  have "Reset ?used (sconst 1) = Inr (EpsilonGreedy \<lparr>e_counts = [0, 0], e_values = [Fin 0, Fin 0],
                    e_epsilon = Fin (1/2), e_arms = 2, e_rand = sconst 1\<rparr>)"
    using b' c v
    by (auto simp: epsilonGreedy_Reset_def make_panics_def maxAlloc_def numeral_2_eq_2)
  with wf r show ?thesis by blast
qed

section \<open>Temperature zero\<close>

text \<open>
  Claim C10: \<^verbatim>\<open>SoftmaxNew\<close> accepts the temperature 0. On the bandit it returns, for a
  number of arms that \<^verbatim>\<open>make\<close> accepts, all values are zero and every weight is
  \<open>0/0 = NaN\<close>; so are the partition sum and every probability, no comparison of the
  sampling loop holds, and \<^verbatim>\<open>SelectArm\<close> returns \<open>len(values) - 1\<close>: with one arm that is
  0, outside \<open>[1, arms]\<close>.
\<close>

theorem softmax_zero_temperature:
  assumes "1 \<le> n" and "n \<le> 2 ^ 45"
  shows "\<exists>s. SoftmaxNew n (Fin 0) seed = Inr s \<and>
           (\<forall>v \<in> set (s_values s). fdiv v (s_tau s) = NaN) \<and>
           distribution (s_values s) (s_tau s) (partition_sum (s_values s) (s_tau s) (Fin 0))
             = replicate (nat n) NaN \<and>
           sample_loop (distribution (s_values s) (s_tau s) (partition_sum (s_values s) (s_tau s) (Fin 0)))
             (partition_sum (s_values s) (s_tau s) (Fin 0)) (Fin 0) 0 = None \<and>
           softmax_SelectArm s = Inr (n - 1, s)"
proof -
  define s where "s = \<lparr> s_counts = replicate (nat n) 0, s_values = replicate (nat n) (Fin 0),
                       s_tau = Fin 0, s_arms = n, s_rand = seed \<rparr>"
  from assms obtain k where k: "nat n = Suc k"
    by (cases "nat n") auto
  have new: "SoftmaxNew n (Fin 0) seed = Inr s"
    using assms by (simp add: SoftmaxNew_def make_panics_def maxAlloc_def fge_def s_def)
  have z: "partition_sum (s_values s) (s_tau s) (Fin 0) = NaN"
    by (simp add: s_def k partition_sum_NaN)
  have d: "distribution (s_values s) (s_tau s) NaN = replicate (nat n) NaN"
    by (simp add: s_def distribution_def map_replicate_const)
  have l: "sample_loop (replicate (nat n) NaN) NaN (Fin 0) 0 = None"
    by (rule sample_loop_NaN)
  have r: "softmax_SelectArm s = Inr (n - 1, s)"
    using assms by (simp add: softmax_SelectArm_def z d l)
  have w: "\<forall>v \<in> set (s_values s). fdiv v (s_tau s) = NaN"
    by (simp add: s_def)
  from new z d l r w show ?thesis by simp
qed

theorem softmax_zero_temperature_witness:
  "(1::int) \<le> 1 \<and> (1::int) \<le> 2 ^ 45 \<and>
   SoftmaxNew 1 (Fin 0) (sconst 0) =
     Inr \<lparr>s_counts = [0], s_values = [Fin 0], s_tau = Fin 0, s_arms = 1, s_rand = sconst 0\<rparr> \<and>
   softmax_SelectArm \<lparr>s_counts = [0], s_values = [Fin 0], s_tau = Fin 0, s_arms = 1, s_rand = sconst 0\<rparr> =
     Inr (0, \<lparr>s_counts = [0], s_values = [Fin 0], s_tau = Fin 0, s_arms = 1, s_rand = sconst 0\<rparr>)"
  using softmax_zero_temperature [of 1 "sconst 0"]
  by (auto simp: SoftmaxNew_def make_panics_def maxAlloc_def fge_def)

section \<open>The running mean\<close>

text \<open>
  The roundings of three updates with the reward 0.1: the sum \<open>0.1 + 0.1\<close> and its half
  are exact, the sum \<open>0.2 + 0.1\<close> and its third are not.
\<close>

lemma round64_eval:
  assumes "2 powi e \<le> \<bar>x\<bar>" and "\<bar>x\<bar> < 2 powi (e + 1)" and "- 1022 \<le> e"
    and "round_even (x / 2 powi (e - 52)) = n"
    and "\<bar>of_int n * 2 powi (e - 52)\<bar> < (2::real) powi 1024"
  shows "round64 x = Fin (of_int n * 2 powi (e - 52))"
proof -
  from exponent64_eq [OF assms(1-3)] have "quantum x = 2 powi (e - 52)"
    by (simp add: quantum_def)
  with assms(4) have "nearest64 x = of_int n * 2 powi (e - 52)"
    by (simp add: nearest64_def)
  with assms(5) show ?thesis
    by (auto simp: round64_def Let_def)
qed

lemma tenth_representable:
  "round64 (3602879701896397 / 36028797018963968) = Fin (3602879701896397 / 36028797018963968)"
proof -
  have "representable (3602879701896397 / 36028797018963968)"
    by (rule representable_mantissa [of _ 3602879701896397 "- 55"]) simp_all
  then show ?thesis by (rule round64_representable)
qed

lemma fifth_representable:
  "round64 (3602879701896397 / 18014398509481984) = Fin (3602879701896397 / 18014398509481984)"
proof -
  have "representable (3602879701896397 / 18014398509481984)"
    by (rule representable_mantissa [of _ 3602879701896397 "- 54"]) simp_all
  then show ?thesis by (rule round64_representable)
qed

lemma three_tenths_rounds:
  "round64 (10808639105689191 / 36028797018963968) = Fin (1351079888211149 / 4503599627370496)"
proof -
  have "round64 (10808639105689191 / 36028797018963968) =
        Fin (of_int 5404319552844596 * 2 powi (- 2 - 52))"
    by (rule round64_eval) (simp_all add: round_even_def Let_def)
  then show ?thesis by simp
qed

lemma third_rounds:
  "round64 (1351079888211149 / 13510798882111488) = Fin (7205759403792795 / 72057594037927936)"
proof -
  have "round64 (1351079888211149 / 13510798882111488) =
        Fin (of_int 7205759403792795 * 2 powi (- 4 - 52))"
    by (rule round64_eval) (simp_all add: round_even_def Let_def)
  then show ?thesis by simp
qed

lemma Update_result:
  assumes "well_formed b" and "1 \<le> arm" and "arm \<le> bandit_arms b"
  shows "\<exists>b'. Update b arm reward = Inr b' \<and> well_formed b' \<and>
           bandit_counts b' = (bandit_counts b)[nat (arm - 1) := wrap64 (bandit_counts b ! nat (arm - 1) + 1)] \<and>
           bandit_values b' = (bandit_values b)[nat (arm - 1) :=
              fdiv (fadd (fmul (bandit_values b ! nat (arm - 1))
                               (float64_of_int (wrap64 (wrap64 (bandit_counts b ! nat (arm - 1) + 1) - 1))))
                         reward)
                   (float64_of_int (wrap64 (bandit_counts b ! nat (arm - 1) + 1)))]"
proof (cases b)
  case (EpsilonGreedy e)
  with assms show ?thesis
    by (auto simp: well_formed_def epsilonGreedy_Update_def Let_def)
next
  case (Softmax s)
  with assms show ?thesis
    by (auto simp: well_formed_def softmax_Update_def Let_def)
qed


text \<open>Integers of at most 53 bits: products, sums and the quotient of the mean are exact.\<close>

lemma mean_integer:
  assumes "0 \<le> k" and "k + 1 \<le> 2 ^ 53" and "\<bar>r\<bar> * (k + 1) \<le> 2 ^ 53"
  shows "fdiv (fadd (fmul (if k = 0 then Fin 0 else Fin (of_int r)) (float64_of_int k)) (Fin (of_int r)))
              (float64_of_int (k + 1)) = Fin (of_int r)"
proof -
  from assms have k: "\<bar>k\<bar> \<le> 2 ^ 53" "\<bar>k + 1\<bar> \<le> 2 ^ 53" by simp_all
  have "\<bar>r\<bar> * 1 \<le> \<bar>r\<bar> * (k + 1)"
    using assms(1) by (intro mult_left_mono) simp_all
  with assms(3) have r: "\<bar>r\<bar> \<le> 2 ^ 53" by simp
  have "\<bar>r\<bar> * k \<le> \<bar>r\<bar> * (k + 1)"
    by (intro mult_left_mono) simp_all
  with assms(1,3) have rk: "\<bar>r * k\<bar> \<le> 2 ^ 53" by (simp add: abs_mult)
  from assms(1,3) have rk1: "\<bar>r * k + r\<bar> \<le> 2 ^ 53"
    by (metis abs_mult abs_of_nonneg add_nonneg_nonneg distrib_left mult.right_neutral zero_le_one)
  have prod: "fmul (if k = 0 then Fin 0 else Fin (of_int r)) (float64_of_int k) = Fin (of_int (r * k))"
    using round64_of_int [OF rk] by (simp add: float64_of_int_exact [OF k(1)])
  have sum: "fadd (Fin (of_int (r * k))) (Fin (of_int r)) = Fin (of_int (r * k + r))"
    using round64_of_int [OF rk1] by simp
  from assms(1) have "real_of_int k + 1 \<noteq> 0" by linarith
  then have "(real_of_int r * real_of_int k + real_of_int r) / (real_of_int k + 1) = real_of_int r"
    by (simp add: field_simps)
  then have "fdiv (Fin (of_int (r * k + r))) (float64_of_int (k + 1)) = Fin (of_int r)"
    using round64_of_int [OF r] \<open>real_of_int k + 1 \<noteq> 0\<close>
    by (simp add: float64_of_int_exact [OF k(2)])
  with prod sum show ?thesis by simp
qed

lemma Updates_constant:
  assumes "well_formed b" and "1 \<le> arm" and "arm \<le> bandit_arms b"
    and "bandit_counts b ! nat (arm - 1) = int k"
    and "bandit_values b ! nat (arm - 1) = (if k = 0 then Fin 0 else Fin (of_int r))"
    and "int (k + n) \<le> 2 ^ 53" and "\<bar>r\<bar> * int (k + n) \<le> 2 ^ 53"
  shows "\<exists>b'. Updates b arm (Fin (of_int r)) n = Inr b' \<and> well_formed b' \<and>
           bandit_arms b' = bandit_arms b \<and>
           bandit_counts b' ! nat (arm - 1) = int (k + n) \<and>
           bandit_values b' ! nat (arm - 1) = (if k + n = 0 then Fin 0 else Fin (of_int r))"
  using assms
proof (induction n arbitrary: b k)
  case 0
  then show ?case by simp
next
  case (Suc n)
  from Update_result [OF Suc.prems(1-3), of "Fin (of_int r)"] obtain b1 where
    u: "Update b arm (Fin (of_int r)) = Inr b1" and wf: "well_formed b1"
    and c: "bandit_counts b1 = (bandit_counts b)[nat (arm - 1) := wrap64 (bandit_counts b ! nat (arm - 1) + 1)]"
    and v: "bandit_values b1 = (bandit_values b)[nat (arm - 1) :=
              fdiv (fadd (fmul (bandit_values b ! nat (arm - 1))
                               (float64_of_int (wrap64 (wrap64 (bandit_counts b ! nat (arm - 1) + 1) - 1))))
                         (Fin (of_int r)))
                   (float64_of_int (wrap64 (bandit_counts b ! nat (arm - 1) + 1)))]"
    by blast
  have small: "int k + 1 \<le> 2 ^ 53" using Suc.prems(6) by simp
  have w1: "wrap64 (int k + 1) = int k + 1"
    by (rule wrap64_id) (use small in simp_all)
  have w0: "wrap64 (int k) = int k"
    by (rule wrap64_id) (use small in simp_all)
  from Update_frame [OF u] have a: "bandit_arms b1 = bandit_arms b" by simp
  from Suc.prems have len: "nat (arm - 1) < length (bandit_counts b)" "nat (arm - 1) < length (bandit_values b)"
    by (auto simp: well_formed_def make_panics_def)
  from c len Suc.prems(4) have c1: "bandit_counts b1 ! nat (arm - 1) = int (Suc k)"
    by (simp add: w1)
  have "\<bar>r\<bar> * (int k + 1) \<le> \<bar>r\<bar> * int (k + Suc n)"
    by (intro mult_left_mono) simp_all
  with Suc.prems(7) have "\<bar>r\<bar> * (int k + 1) \<le> 2 ^ 53" by simp
  from mean_integer [OF _ small this] v len Suc.prems(4,5)
  have v1: "bandit_values b1 ! nat (arm - 1) = (if Suc k = 0 then Fin 0 else Fin (of_int r))"
    by (simp add: w1 w0)
  from Suc.prems(6,7) have "int (Suc k + n) \<le> 2 ^ 53" "\<bar>r\<bar> * int (Suc k + n) \<le> 2 ^ 53"
    by simp_all
  from Suc.IH [OF wf _ _ c1 v1 this] a Suc.prems(2,3)
  obtain b' where "Updates b1 arm (Fin (of_int r)) n = Inr b'" "well_formed b'"
    "bandit_arms b' = bandit_arms b1"
    "bandit_counts b' ! nat (arm - 1) = int (Suc k + n)"
    "bandit_values b' ! nat (arm - 1) = (if Suc k + n = 0 then Fin 0 else Fin (of_int r))"
    by auto
  with u a show ?case by simp
qed



section \<open>The best arm\<close>

lemma fle_refl: "x \<noteq> NaN \<Longrightarrow> fle x x"
  by (cases x) simp_all

lemma not_flt_fle: "x \<noteq> NaN \<Longrightarrow> y \<noteq> NaN \<Longrightarrow> \<not> flt x y \<Longrightarrow> fle y x"
  by (cases x; cases y) simp_all

lemma flt_imp_fle: "flt x y \<Longrightarrow> fle x y"
  by (cases x; cases y) simp_all

lemma fle_flt_trans: "fle x y \<Longrightarrow> flt y z \<Longrightarrow> flt x z"
  by (cases x; cases y; cases z) simp_all

lemma scan_first_maximal:
  assumes "NaN \<notin> set vs" and "n \<le> length vs" and "vs \<noteq> []"
  shows "fold (\<lambda>i arm. if fgt (vs ! i) (vs ! arm) then i else arm) [0..<n] 0 < length vs \<and>
         first_maximal vs n (fold (\<lambda>i arm. if fgt (vs ! i) (vs ! arm) then i else arm) [0..<n] 0)"
  using assms(2)
proof (induction n)
  case 0
  with assms(3) show ?case by (simp add: first_maximal_def)
next
  case (Suc n)
  let ?a = "fold (\<lambda>i arm. if fgt (vs ! i) (vs ! arm) then i else arm) [0..<n] 0"
  from Suc have a: "?a < length vs" and m: "first_maximal vs n ?a" and n: "n < length vs"
    by simp_all
  have no_NaN: "vs ! i \<noteq> NaN" if "i < length vs" for i
  proof
    assume "vs ! i = NaN"
    with nth_mem [OF that] have "NaN \<in> set vs" by simp
    with assms(1) show False by simp
  qed
  have nn: "vs ! ?a \<noteq> NaN" "vs ! n \<noteq> NaN"
    using a n by (simp_all add: no_NaN)
  show ?case
  proof (cases "fgt (vs ! n) (vs ! ?a)")
    case True
    then have lt: "flt (vs ! ?a) (vs ! n)" by (simp add: fgt_def)
    have "first_maximal vs (Suc n) n"
      unfolding first_maximal_def
    proof (intro conjI allI impI)
      fix j assume "j < Suc n"
      show "fle (vs ! j) (vs ! n)"
      proof (cases "j = n")
        case True
        with nn show ?thesis by (simp add: fle_refl)
      next
        case False
        with \<open>j < Suc n\<close> m have "fle (vs ! j) (vs ! ?a)" by (simp add: first_maximal_def)
        from fle_flt_trans [OF this lt] show ?thesis by (rule flt_imp_fle)
      qed
    next
      fix j assume "j < n"
      with m have "fle (vs ! j) (vs ! ?a)" by (simp add: first_maximal_def)
      from this lt show "flt (vs ! j) (vs ! n)" by (rule fle_flt_trans)
    qed
    with True n show ?thesis by simp
  next
    case False
    with nn have "fle (vs ! n) (vs ! ?a)" by (simp add: fgt_def not_flt_fle)
    with m have "first_maximal vs (Suc n) ?a"
      by (auto simp: first_maximal_def less_Suc_eq)
    with False a show ?thesis by simp
  qed
qed

lemma best_arm_first_maximal:
  assumes "NaN \<notin> set vs" and "vs \<noteq> []"
  shows "best_arm vs < length vs \<and>
         (\<forall>j<length vs. fle (vs ! j) (vs ! best_arm vs)) \<and>
         (\<forall>j<best_arm vs. flt (vs ! j) (vs ! best_arm vs))"
  using scan_first_maximal [OF assms(1) order_refl assms(2)]
  by (simp add: best_arm_def first_maximal_def)

text \<open>
  Claim C8, as stated: in every epsilon-greedy bandit state, when the draw is greater than
  epsilon, \<^verbatim>\<open>SelectArm\<close> returns the lowest-index arm among those of maximal mean. After
  \<^verbatim>\<open>Update(1, NaN)\<close>, \<^verbatim>\<open>Update(2, 1)\<close> and \<^verbatim>\<open>Update(3, 2)\<close> the means are NaN, 1 and 2;
  no comparison with NaN holds, so the scan keeps arm 1 and \<^verbatim>\<open>SelectArm\<close> returns ordinal 1,
  whose mean is not the greatest. A bandit with no arm panics instead of returning.
\<close>

theorem epsilonGreedy_best_arm_counterexample:
  "run (EpsilonGreedy \<lparr>e_counts = [0, 0, 0], e_values = [Fin 0, Fin 0, Fin 0], e_epsilon = Fin 0,
                        e_arms = 3, e_rand = sconst 1\<rparr>)
       [CallUpdate 1 NaN, CallUpdate 2 (Fin 1), CallUpdate 3 (Fin 2)] =
     Inr (EpsilonGreedy \<lparr>e_counts = [1, 1, 1], e_values = [NaN, Fin 1, Fin 2], e_epsilon = Fin 0,
                          e_arms = 3, e_rand = sconst 1\<rparr>) \<and>
   fgt (fst (Float64 (sconst 1))) (Fin 0) \<and>
   epsilonGreedy_SelectArm \<lparr>e_counts = [1, 1, 1], e_values = [NaN, Fin 1, Fin 2], e_epsilon = Fin 0,
                            e_arms = 3, e_rand = sconst 1\<rparr> =
     Inr (1, \<lparr>e_counts = [2, 1, 1], e_values = [NaN, Fin 1, Fin 2], e_epsilon = Fin 0,
              e_arms = 3, e_rand = sconst 1\<rparr>) \<and>
   \<not> fle (Fin 2) NaN \<and>
   EpsilonGreedyNew 0 (Fin 0) (sconst 1) =
     Inr \<lparr>e_counts = [], e_values = [], e_epsilon = Fin 0, e_arms = 0, e_rand = sconst 1\<rparr> \<and>
   epsilonGreedy_SelectArm \<lparr>e_counts = [], e_values = [], e_epsilon = Fin 0, e_arms = 0,
                            e_rand = sconst 1\<rparr> = Inl Panic"
  by (simp add: epsilonGreedy_Update_def epsilonGreedy_SelectArm_def Float64_def fgt_def
        epsilonGreedy_count_def best_arm_def EpsilonGreedyNew_def fge_def make_panics_def
        maxAlloc_def)

text \<open>
  Claim C8, amended: in every epsilon-greedy bandit state with at least one arm, as many
  counters as values and no mean that is NaN, when the draw is greater than epsilon,
  \<^verbatim>\<open>SelectArm\<close> returns the lowest-index arm among those of maximal mean: no arm has a
  greater mean than the arm returned, and every arm before it has a smaller one.
\<close>

theorem epsilonGreedy_exploits_first_maximal:
  assumes "e_values e \<noteq> []" and "length (e_counts e) = length (e_values e)"
    and "NaN \<notin> set (e_values e)"
    and "fgt (fst (Float64 (e_rand e))) (e_epsilon e)"
  shows "\<exists>a e'. epsilonGreedy_SelectArm e = Inr (int a + 1, e') \<and> a < length (e_values e) \<and>
           (\<forall>j<length (e_values e). fle (e_values e ! j) (e_values e ! a)) \<and>
           (\<forall>j<a. flt (e_values e ! j) (e_values e ! a))"
proof -
  from best_arm_first_maximal [OF assms(3,1)]
  have b: "best_arm (e_values e) < length (e_values e)"
    and m: "\<forall>j<length (e_values e). fle (e_values e ! j) (e_values e ! best_arm (e_values e))"
    and f: "\<forall>j<best_arm (e_values e). flt (e_values e ! j) (e_values e ! best_arm (e_values e))"
    by simp_all
  from assms(2,4) b
  have "\<exists>e'. epsilonGreedy_SelectArm e = Inr (int (best_arm (e_values e)) + 1, e')"
    by (cases "Float64 (e_rand e)") (simp add: epsilonGreedy_SelectArm_def epsilonGreedy_count_def)
  with b m f show ?thesis by blast
qed

theorem epsilonGreedy_exploits_first_maximal_witness:
  "e_values \<lparr>e_counts = [0, 0, 0], e_values = [Fin 1, Fin 2, Fin 2], e_epsilon = Fin 0,
              e_arms = 3, e_rand = sconst 1\<rparr> \<noteq> [] \<and>
   NaN \<notin> set [Fin 1, Fin 2, Fin 2] \<and>
   fgt (fst (Float64 (sconst 1))) (Fin 0) \<and>
   epsilonGreedy_SelectArm \<lparr>e_counts = [0, 0, 0], e_values = [Fin 1, Fin 2, Fin 2], e_epsilon = Fin 0,
              e_arms = 3, e_rand = sconst 1\<rparr> =
     Inr (2, \<lparr>e_counts = [0, 1, 0], e_values = [Fin 1, Fin 2, Fin 2], e_epsilon = Fin 0,
              e_arms = 3, e_rand = sconst 1\<rparr>)"
proof -
  let ?e = "\<lparr>e_counts = [0, 0, 0], e_values = [Fin 1, Fin 2, Fin 2], e_epsilon = Fin 0,
              e_arms = 3, e_rand = sconst 1\<rparr>"
  have h1: "e_values ?e \<noteq> []" by simp
  have h2: "length (e_counts ?e) = length (e_values ?e)" by simp
  have h3: "NaN \<notin> set (e_values ?e)" by simp
  have h4: "fgt (fst (Float64 (e_rand ?e))) (e_epsilon ?e)"
    by (simp add: Float64_def fgt_def)
  from epsilonGreedy_exploits_first_maximal [OF h1 h2 h3 h4]
  obtain a e' where r: "epsilonGreedy_SelectArm ?e = Inr (int a + 1, e')"
    and a: "a < 3"
    and m: "\<forall>j<3. fle ([Fin 1, Fin 2, Fin 2] ! j) ([Fin 1, Fin 2, Fin 2] ! a)"
    and f: "\<forall>j<a. flt ([Fin 1, Fin 2, Fin 2] ! j) ([Fin 1, Fin 2, Fin 2] ! a)"
    by auto
  from a have "a = 0 \<or> a = 1 \<or> a = 2" by arith
  moreover have "a \<noteq> 0"
  proof
    assume "a = 0"
    with m [rule_format, of 1] show False by simp
  qed
  moreover have "a \<noteq> 2"
  proof
    assume "a = 2"
    with f [rule_format, of 1] show False by simp
  qed
  ultimately have "a = 1" by simp
  with r have "fst (projr (epsilonGreedy_SelectArm ?e)) = 2" by simp
  moreover have "snd (projr (epsilonGreedy_SelectArm ?e)) =
     \<lparr>e_counts = [0, 1, 0], e_values = [Fin 1, Fin 2, Fin 2], e_epsilon = Fin 0,
              e_arms = 3, e_rand = sconst 1\<rparr>"
    using h4 by (simp add: epsilonGreedy_SelectArm_def Float64_def epsilonGreedy_count_def best_arm_def fgt_def)
  ultimately have "epsilonGreedy_SelectArm ?e =
     Inr (2, \<lparr>e_counts = [0, 1, 0], e_values = [Fin 1, Fin 2, Fin 2], e_epsilon = Fin 0,
              e_arms = 3, e_rand = sconst 1\<rparr>)"
    using r by (cases "epsilonGreedy_SelectArm ?e") auto
  with h1 h3 h4 show ?thesis by simp
qed

section \<open>The sampling loop of the softmax bandit\<close>

text \<open>
  With means that are not negative and a temperature above 0 every weight is at least 1.
  The partition sum is then at least the number of arms and at least every weight, or
  \<open>+Inf\<close>; every probability is at most 1, and the running sum of the first \<open>k\<close> of them
  at most \<open>k\<close>: rounding is monotone and the integers up to \<open>2^53\<close> are exact.
\<close>

lemma flt_PInf_left [simp]: "flt PInf x = False"
  by (cases x) simp_all

lemma sample_loop_PInf: "sample_loop ps PInf accum i = None"
  by (induction ps arbitrary: accum i) (simp_all add: fgt_def)

lemma partition_sum_foldl:
  "partition_sum vs tau z = foldl fadd z (map (\<lambda>v. fexp (fdiv v tau)) vs)"
  by (induction vs arbitrary: z) simp_all

lemma round64_at_least_one:
  assumes "1 \<le> x"
  shows "at_least_one (round64 x)"
proof -
  from round64_mono [of 1 x] assms have le: "fle (Fin 1) (round64 x)" by simp
  show ?thesis
  proof (cases "round64 x")
    case (Fin y)
    with le round64_Fin_representable [OF Fin] show ?thesis
      by (simp add: at_least_one_def)
  qed (use le in \<open>simp_all add: at_least_one_def\<close>)
qed

lemma fexp_at_least_one:
  assumes "0 \<le> a"
  shows "at_least_one (fexp (Fin a))"
proof -
  have "\<not> a < Underflow" using assms by (simp add: Underflow_def)
  moreover have "at_least_one (round64 (1 + a))"
    using assms by (intro round64_at_least_one) simp
  moreover have "at_least_one (round64 (exp a))"
    using assms by (intro round64_at_least_one) simp
  ultimately show ?thesis by (simp add: at_least_one_def)
qed

lemma weight_at_least_one:
  assumes "0 \<le> x" and "0 < t"
  shows "at_least_one (fexp (fdiv (Fin x) (Fin t)))"
proof -
  from assms have "0 \<le> x / t" by simp
  from round64_nonneg [OF this] show ?thesis
  proof
    assume "round64 (x / t) = PInf"
    with assms(2) show ?thesis by (simp add: at_least_one_def)
  next
    assume "\<exists>y. round64 (x / t) = Fin y \<and> 0 \<le> y"
    then obtain y where y: "round64 (x / t) = Fin y" "0 \<le> y" by blast
    from assms(2) y(1) have "fdiv (Fin x) (Fin t) = Fin y" by simp
    with fexp_at_least_one [OF y(2)] show ?thesis by (simp only:)
  qed
qed

lemma foldl_fadd_PInf:
  "\<forall>e\<in>set es. at_least_one e \<Longrightarrow> foldl fadd PInf es = PInf"
proof (induction es)
  case Nil
  then show ?case by simp
next
  case (Cons e es)
  then have "at_least_one e" by simp
  then have "fadd PInf e = PInf"
    by (cases e) (simp_all add: at_least_one_def)
  with Cons show ?case by simp
qed

lemma fadd_weight:
  assumes "representable a" and "real i \<le> a" and "1 \<le> x" and "representable x"
    and "Suc i \<le> 2 ^ 53"
  shows "fadd (Fin a) (Fin x) = PInf \<or>
         (\<exists>b. fadd (Fin a) (Fin x) = Fin b \<and> representable b \<and> real (Suc i) \<le> b \<and> a \<le> b \<and> x \<le> b)"
proof -
  from assms(2) have a0: "0 \<le> a" by (meson of_nat_0_le_iff order_trans)
  have "\<bar>int (Suc i)\<bar> \<le> 2 ^ 53" using assms(5) by (simp add: nat_le_iff)
  from round64_of_int [OF this] have s: "round64 (real (Suc i)) = Fin (real (Suc i))" by simp
  from assms(2,3) have "real (Suc i) \<le> a + x" by simp
  from round64_mono [OF _ this] s have 1: "fle (Fin (real (Suc i))) (round64 (a + x))" by simp
  from round64_mono [of a "a + x"] a0 assms(3) round64_representable [OF assms(1)]
  have 2: "fle (Fin a) (round64 (a + x))" by simp
  from round64_mono [of x "a + x"] a0 assms(3) round64_representable [OF assms(4)]
  have 3: "fle (Fin x) (round64 (a + x))" by simp
  show ?thesis
  proof (cases "round64 (a + x)")
    case (Fin b)
    with 1 2 3 round64_Fin_representable [OF Fin] show ?thesis by simp
  qed (use 1 in simp_all)
qed

lemma sum_weights:
  assumes "\<forall>e\<in>set es. at_least_one e" and "representable a" and "real i \<le> a"
    and "i + length es \<le> 2 ^ 53"
  shows "foldl fadd (Fin a) es = PInf \<or>
         (\<exists>b. foldl fadd (Fin a) es = Fin b \<and> real (i + length es) \<le> b \<and> a \<le> b \<and>
              (\<forall>e\<in>set es. \<exists>x. e = Fin x \<and> 1 \<le> x \<and> x \<le> b))"
  using assms
proof (induction es arbitrary: a i)
  case Nil
  then show ?case by simp
next
  case (Cons e es)
  from Cons.prems(1) have w: "at_least_one e" and ws: "\<forall>e\<in>set es. at_least_one e" by simp_all
  show ?case
  proof (cases e)
    case PInf
    then have "fadd (Fin a) e = PInf" by simp
    with ws show ?thesis by (simp add: foldl_fadd_PInf)
  next
    case (Fin x)
    with w have x: "1 \<le> x" "representable x" by (simp_all add: at_least_one_def)
    from Cons.prems(4) have si: "Suc i \<le> 2 ^ 53" by simp
    from fadd_weight [OF Cons.prems(2,3) x si] show ?thesis
    proof
      assume "fadd (Fin a) (Fin x) = PInf"
      with Fin ws show ?thesis by (simp add: foldl_fadd_PInf)
    next
      assume "\<exists>b. fadd (Fin a) (Fin x) = Fin b \<and> representable b \<and> real (Suc i) \<le> b \<and> a \<le> b \<and> x \<le> b"
      then obtain a' where a': "fadd (Fin a) (Fin x) = Fin a'" "representable a'"
        "real (Suc i) \<le> a'" "a \<le> a'" "x \<le> a'" by blast
      from Cons.prems(4) have "Suc i + length es \<le> 2 ^ 53" by simp
      from Cons.IH [OF ws a'(2,3) this] show ?thesis
      proof
        assume "foldl fadd (Fin a') es = PInf"
        with Fin a'(1) show ?thesis by simp
      next
        assume "\<exists>b. foldl fadd (Fin a') es = Fin b \<and> real (Suc i + length es) \<le> b \<and> a' \<le> b \<and>
              (\<forall>e\<in>set es. \<exists>x. e = Fin x \<and> 1 \<le> x \<and> x \<le> b)"
        then obtain b where b: "foldl fadd (Fin a') es = Fin b" "real (Suc i + length es) \<le> b"
          "a' \<le> b" "\<forall>e\<in>set es. \<exists>x. e = Fin x \<and> 1 \<le> x \<and> x \<le> b" by blast
        from b(1) Fin a'(1) have "foldl fadd (Fin a) (e # es) = Fin b" by simp
        moreover from b(2) have "real (i + length (e # es)) \<le> b" by simp
        moreover from a'(4) b(3) have "a \<le> b" by simp
        moreover from a'(5) b(3) x(1) Fin have "\<exists>y. e = Fin y \<and> 1 \<le> y \<and> y \<le> b" by simp
        ultimately show ?thesis using b(4) by simp
      qed
    qed
  qed (use w in \<open>simp_all add: at_least_one_def\<close>)
qed

lemma probability:
  assumes "1 \<le> x" and "x \<le> b"
  shows "\<exists>p. fdiv (Fin x) (Fin b) = Fin p \<and> 0 \<le> p \<and> p \<le> 1"
proof -
  from assms have b: "b \<noteq> 0" and q: "0 \<le> x / b" "x / b \<le> 1" by simp_all
  from round64_mono [OF q] have le: "fle (round64 (x / b)) (Fin 1)" by simp
  from round64_nonneg [OF q(1)] show ?thesis
  proof
    assume "round64 (x / b) = PInf"
    with le show ?thesis by simp
  next
    assume "\<exists>y. round64 (x / b) = Fin y \<and> 0 \<le> y"
    with le b show ?thesis by auto
  qed
qed

lemma sample_loop_probabilities:
  assumes "\<forall>p\<in>set ps. \<exists>x. p = Fin x \<and> 0 \<le> x \<and> x \<le> 1"
    and "0 \<le> a" and "a \<le> real i" and "real (i + length ps) \<le> b" and "i + length ps \<le> 2 ^ 53"
  shows "sample_loop ps (Fin b) (Fin a) i = None"
  using assms
proof (induction ps arbitrary: a i)
  case Nil
  then show ?case by simp
next
  case (Cons p ps)
  from Cons.prems(1) obtain x where p: "p = Fin x" and x: "0 \<le> x" "x \<le> 1" by auto
  have "\<bar>int (Suc i)\<bar> \<le> 2 ^ 53" using Cons.prems(5) by (simp add: nat_le_iff)
  from round64_of_int [OF this] have s: "round64 (real (Suc i)) = Fin (real (Suc i))" by simp
  from Cons.prems(2,3) x have ax: "0 \<le> a + x" "a + x \<le> real (Suc i)" by simp_all
  from round64_mono [OF ax] s have le: "fle (round64 (a + x)) (Fin (real (Suc i)))" by simp
  from round64_nonneg [OF ax(1)] le obtain a' where
    a': "round64 (a + x) = Fin a'" "0 \<le> a'" "a' \<le> real (Suc i)"
    by auto
  from Cons.prems(4) a'(3) have "\<not> b < a'" by simp
  moreover from Cons.prems(1,4,5) a'(2,3)
  have "sample_loop ps (Fin b) (Fin a') (Suc i) = None"
    by (intro Cons.IH) simp_all
  ultimately show ?case by (simp add: p a'(1) fgt_def)
qed

text \<open>
  Negative means: the weights of \<open>-10\<close> are small but not zero, those of \<open>-1000\<close> are
  zero, the partition sum with them, and every probability is \<open>0/0\<close>.
\<close>

lemma exp_minus_ten_bounds:
  "1 / 2 ^ 20 \<le> exp (- 10 :: real)" "exp (- 10 :: real) \<le> 1 / 8"
proof -
  have "1 + (10::real) \<le> exp 10" by (rule exp_ge_add_one_self)
  then have big: "(8::real) \<le> exp 10" by simp
  have m: "exp (- 10 :: real) = inverse (exp 10)" by (simp add: exp_minus)
  also from big have "\<dots> \<le> inverse 8" by (intro le_imp_inverse_le) simp_all
  finally show "exp (- 10 :: real) \<le> 1 / 8" by (simp add: inverse_eq_divide)
  have "exp (1::real) \<le> 1 + 1 + 1\<^sup>2" by (rule exp_bound) simp_all
  then have e: "exp (1::real) \<le> 3" by simp
  have "exp (10::real) = exp (of_nat 10 * 1)" by simp
  also have "\<dots> = exp 1 ^ 10" by (rule exp_of_nat_mult)
  also from e have "\<dots> \<le> 3 ^ 10" by (intro power_mono) simp_all
  also have "\<dots> \<le> (2::real) ^ 20" by simp
  finally have "exp (10::real) \<le> 2 ^ 20" .
  then have "inverse (2 ^ 20) \<le> inverse (exp (10::real))"
    by (intro le_imp_inverse_le) simp_all
  with m show "1 / 2 ^ 20 \<le> exp (- 10 :: real)" by (simp add: inverse_eq_divide)
qed

lemma fexp_minus_ten:
  "\<exists>e. fexp (Fin (- 10)) = Fin e \<and> representable e \<and> 0 < e \<and> e \<le> 1 / 8"
proof -
  have f: "fexp (Fin (- 10)) = round64 (exp (- 10))"
    by (simp add: Overflow_def Underflow_def NearZero_def)
  have "representable (of_int 1 * 2 powi (- 20))"
    by (rule representable_mantissa [OF refl]) (simp_all add: power_int_minus)
  then have lo: "round64 (1 / 2 ^ 20) = Fin (1 / 2 ^ 20)"
    by (intro round64_representable) (simp add: power_int_minus inverse_eq_divide)
  have "representable (of_int 1 * 2 powi (- 3))"
    by (rule representable_mantissa [OF refl]) (simp_all add: power_int_minus)
  then have hi: "round64 (1 / 8) = Fin (1 / 8)"
    by (intro round64_representable) (simp add: power_int_minus inverse_eq_divide)
  from round64_mono [OF _ exp_minus_ten_bounds(1)] lo
  have 1: "fle (Fin (1 / 2 ^ 20)) (round64 (exp (- 10)))" by simp
  from round64_mono [OF _ exp_minus_ten_bounds(2)] hi
  have 2: "fle (round64 (exp (- 10))) (Fin (1 / 8))" by simp
  show ?thesis
  proof (cases "round64 (exp (- 10))")
    case (Fin e)
    with 1 2 have "1 / 2 ^ 20 \<le> e" "e \<le> 1 / 8" by simp_all
    moreover from this(1) have "0 < e" by (rule less_le_trans [rotated]) simp
    ultimately show ?thesis using f Fin round64_Fin_representable [OF Fin] by simp
  qed (use 1 2 in simp_all)
qed

lemma softmax_underflow_falls_through:
  "sample_loop
     (distribution [Fin (- 1000), Fin (- 1000)] (Fin 1)
        (partition_sum [Fin (- 1000), Fin (- 1000)] (Fin 1) (Fin 0)))
     (partition_sum [Fin (- 1000), Fin (- 1000)] (Fin 1) (Fin 0)) (Fin 0) 0 = None"
  by (simp add: distribution_def fgt_def Overflow_def Underflow_def NearZero_def)




section \<open>The contiguity check of the parser\<close>

text \<open>
  What the record loop builds: one group per experiment name, holding the variants of the
  records of that name in the order of the records.
\<close>

lemma append_variant_map_of:
  "map_of (append_variant m n v) k =
     (if k = n then Some ((case map_of m n of None \<Rightarrow> [] | Some vs \<Rightarrow> vs) @ [v]) else map_of m k)"
  by (induction m n v rule: append_variant.induct) auto

lemma read_records_groups:
  assumes "read_records records i m0 = Inr m"
  shows "\<exists>nvs. list_all2 (\<lambda>r p. \<exists>j. parse_record j r = Inr p) records nvs \<and>
           (\<forall>k. map_of m k =
              (if map_of m0 k = None \<and> filter (\<lambda>p. fst p = k) nvs = [] then None
               else Some ((case map_of m0 k of None \<Rightarrow> [] | Some vs \<Rightarrow> vs) @
                          map snd (filter (\<lambda>p. fst p = k) nvs))))"
  using assms
proof (induction records arbitrary: i m0)
  case Nil
  then show ?case by (auto split: option.splits)
next
  case (Cons r rs)
  from Cons.prems obtain name v where p: "parse_record i r = Inr (name, v)"
    and rest: "read_records rs (Suc i) (append_variant m0 name v) = Inr m"
    by (auto split: sum.splits)
  from Cons.IH [OF rest] obtain nvs where
    l: "list_all2 (\<lambda>r p. \<exists>j. parse_record j r = Inr p) rs nvs"
    and g: "\<And>k. map_of m k =
              (if map_of (append_variant m0 name v) k = None \<and> filter (\<lambda>p. fst p = k) nvs = [] then None
               else Some ((case map_of (append_variant m0 name v) k of None \<Rightarrow> [] | Some vs \<Rightarrow> vs) @
                          map snd (filter (\<lambda>p. fst p = k) nvs)))"
    by blast
  from p l have "list_all2 (\<lambda>r p. \<exists>j. parse_record j r = Inr p) (r # rs) ((name, v) # nvs)"
    by auto
  moreover have "map_of m k =
              (if map_of m0 k = None \<and> filter (\<lambda>p. fst p = k) ((name, v) # nvs) = [] then None
               else Some ((case map_of m0 k of None \<Rightarrow> [] | Some vs \<Rightarrow> vs) @
                          map snd (filter (\<lambda>p. fst p = k) ((name, v) # nvs))))" for k
    unfolding g [of k] append_variant_map_of by (simp split: option.splits)
  ultimately show ?case by blast
qed

lemma append_variant_keys:
  "map fst (append_variant m name v) =
     (if name \<in> set (map fst m) then map fst m else map fst m @ [name])"
  by (induction m name v rule: append_variant.induct) auto

lemma append_variant_distinct:
  "distinct (map fst m) \<Longrightarrow> distinct (map fst (append_variant m name v))"
  by (simp add: append_variant_keys)

lemma read_records_distinct:
  "read_records records i m = Inr m' \<Longrightarrow> distinct (map fst m) \<Longrightarrow> distinct (map fst m')"
proof (induction records arbitrary: i m)
  case Nil
  then show ?case by simp
next
  case (Cons r rs)
  from Cons.prems(1) obtain name v where "parse_record i r = Inr (name, v)"
    and "read_records rs (Suc i) (append_variant m name v) = Inr m'"
    by (auto split: sum.splits)
  with Cons.IH [of "Suc i" "append_variant m name v"] Cons.prems(2) show ?case
    by (simp add: append_variant_distinct)
qed

lemma sort_groups_keys: "map fst (sort_groups m) = map fst m"
  by (induction m) (auto simp: sort_groups_def)

lemma sort_groups_set:
  "(name, vs) \<in> set m \<Longrightarrow> (name, sort_key Ordinal vs) \<in> set (sort_groups m)"
  by (force simp: sort_groups_def)

lemma sort_groups_set_conv:
  "(name, ws) \<in> set (sort_groups m) \<Longrightarrow> \<exists>vs. (name, vs) \<in> set m \<and> ws = sort_key Ordinal vs"
  by (auto simp: sort_groups_def)

lemma range_map_set:
  assumes "distinct (map fst m)" and "set ks = fst ` set m"
  shows "set (range_map m ks) = set m"
proof -
  have "(k, v) \<in> set (range_map m ks) \<longleftrightarrow> (k, v) \<in> set m" for k v
  proof -
    have "(k, v) \<in> set (range_map m ks) \<longleftrightarrow> k \<in> set ks \<and> map_of m k = Some v"
      unfolding range_map_def by (induction ks) (auto split: option.splits)
    also have "\<dots> \<longleftrightarrow> (k, v) \<in> set m"
      using assms by (force simp: map_of_eq_Some_iff)
    finally show ?thesis .
  qed
  then show ?thesis by auto
qed

lemma first_noncontiguous_None:
  "first_noncontiguous vs i = None \<longleftrightarrow> map Ordinal vs = [i + 1..i + int (length vs)]"
proof (induction vs arbitrary: i)
  case Nil
  then show ?case by simp
next
  case (Cons v vs)
  have "[i + 1..i + int (length (v # vs))] = (i + 1) # [i + 1 + 1..i + 1 + int (length vs)]"
    by (subst upto_rec1) (simp_all add: add.assoc)
  with Cons.IH [of "i + 1"] show ?case by auto
qed

lemma first_noncontiguous_Some:
  "first_noncontiguous vs i = Some ord \<Longrightarrow>
     \<exists>k<length vs. (\<forall>j<k. Ordinal (vs ! j) = i + int j + 1) \<and>
        Ordinal (vs ! k) \<noteq> i + int k + 1 \<and> ord = Ordinal (vs ! k)"
proof (induction vs arbitrary: i)
  case Nil
  then show ?case by simp
next
  case (Cons v vs)
  show ?case
  proof (cases "Ordinal v \<noteq> i + 1")
    case True
    with Cons.prems have "ord = Ordinal v" by simp
    with True show ?thesis by (intro exI [of _ 0]) simp
  next
    case False
    with Cons.prems have "first_noncontiguous vs (i + 1) = Some ord" by simp
    from Cons.IH [OF this] obtain k where k: "k < length vs"
      and before: "\<forall>j<k. Ordinal (vs ! j) = i + 1 + int j + 1"
      and at: "Ordinal (vs ! k) \<noteq> i + 1 + int k + 1" "ord = Ordinal (vs ! k)"
      by blast
    have "\<forall>j<Suc k. Ordinal ((v # vs) ! j) = i + int j + 1"
    proof (intro allI impI)
      fix j assume "j < Suc k"
      with False before show "Ordinal ((v # vs) ! j) = i + int j + 1"
        by (cases j) simp_all
    qed
    with k at show ?thesis by (intro exI [of _ "Suc k"]) simp
  qed
qed

lemma check_contiguous_None:
  "check_contiguous m = None \<Longrightarrow> (name, vs) \<in> set m \<Longrightarrow> first_noncontiguous vs 0 = None"
  by (induction m rule: check_contiguous.induct) (auto split: option.splits)

lemma check_contiguous_Some:
  "check_contiguous m = Some err \<Longrightarrow>
     \<exists>name vs ord. (name, vs) \<in> set m \<and> first_noncontiguous vs 0 = Some ord \<and>
        err = Errorf ''%s: variant %d noncontiguous'' [StrArg name, IntArg ord]"
  by (induction m rule: check_contiguous.induct) (auto split: option.splits)

text \<open>
  Claim C6: when every record passes the checks on single records and, for some experiment,
  the ordinals of its group sorted ascending are not exactly \<open>1..n\<close> (a gap or a duplicate),
  \<^verbatim>\<open>ParseExperiments\<close> returns no experiment set but the error that names an offending
  experiment and, of its sorted group, the first ordinal that is not its position. Which
  offending experiment is named is up to the order \<open>ks\<close> in which the map is visited.
\<close>

theorem ParseExperiments_noncontiguous:
  assumes "read_records records 0 [] = Inr m"
    and "distinct ks" and "set ks = fst ` set m"
    and "(name, vs) \<in> set m"
    and "map Ordinal (sort_key Ordinal vs) \<noteq> [1..int (length vs)]"
  shows "\<exists>name' vs' k. (name', vs') \<in> set m \<and> k < length vs' \<and>
           (\<forall>j<k. Ordinal (sort_key Ordinal vs' ! j) = int j + 1) \<and>
           Ordinal (sort_key Ordinal vs' ! k) \<noteq> int k + 1 \<and>
           ParseExperiments records ks =
             Inl (Errorf ''%s: variant %d noncontiguous''
                    [StrArg name', IntArg (Ordinal (sort_key Ordinal vs' ! k))])"
proof -
  from read_records_distinct [OF assms(1)] have d: "distinct (map fst m)" by simp
  then have ds: "distinct (map fst (sort_groups m))" by (simp add: sort_groups_keys)
  have "set (map fst (sort_groups m)) = set (map fst m)"
    by (simp only: sort_groups_keys)
  then have "fst ` set (sort_groups m) = fst ` set m"
    by (simp only: set_map)
  with assms(3) have "set ks = fst ` set (sort_groups m)" by simp
  from range_map_set [OF ds this] have rs: "set (range_map (sort_groups m) ks) = set (sort_groups m)" .
  from assms(4) have mem: "(name, sort_key Ordinal vs) \<in> set (range_map (sort_groups m) ks)"
    unfolding rs by (rule sort_groups_set)
  have "check_contiguous (range_map (sort_groups m) ks) \<noteq> None"
  proof
    assume "check_contiguous (range_map (sort_groups m) ks) = None"
    from check_contiguous_None [OF this mem] assms(5) show False
      by (simp add: first_noncontiguous_None)
  qed
  then obtain err where err: "check_contiguous (range_map (sort_groups m) ks) = Some err"
    by (cases "check_contiguous (range_map (sort_groups m) ks)") simp_all
  from check_contiguous_Some [OF this] obtain name' ws ord where
    in_set: "(name', ws) \<in> set (sort_groups m)"
    and bad: "first_noncontiguous ws 0 = Some ord"
    and e: "err = Errorf ''%s: variant %d noncontiguous'' [StrArg name', IntArg ord]"
    unfolding rs by blast
  from sort_groups_set_conv [OF in_set] obtain vs' where
    vs': "(name', vs') \<in> set m" "ws = sort_key Ordinal vs'" by blast
  from first_noncontiguous_Some [OF bad] obtain k where
    k: "k < length ws" "\<forall>j<k. Ordinal (ws ! j) = int j + 1" "Ordinal (ws ! k) \<noteq> int k + 1"
      "ord = Ordinal (ws ! k)"
    by auto
  have "ParseExperiments records ks = Inl err"
    by (simp add: ParseExperiments_def assms(1) Let_def err)
  with vs' k e show ?thesis
    by (intro exI [of _ name'] exI [of _ vs'] exI [of _ k]) simp
qed

theorem ParseExperiments_noncontiguous_witness:
  "read_records [[''exp'', ''1'', ''/a'', ''exp:a''], [''exp'', ''3'', ''/b'', ''exp:b'']] 0 [] =
     Inr [(''exp'', [\<lparr>Ordinal = 1, URL = ''/a'', Tag = ''exp:a''\<rparr>,
                     \<lparr>Ordinal = 3, URL = ''/b'', Tag = ''exp:b''\<rparr>])] \<and>
   map Ordinal (sort_key Ordinal [\<lparr>Ordinal = 1, URL = ''/a'', Tag = ''exp:a''\<rparr>,
                     \<lparr>Ordinal = 3, URL = ''/b'', Tag = ''exp:b''\<rparr>]) \<noteq> [1..2] \<and>
   ParseExperiments [[''exp'', ''1'', ''/a'', ''exp:a''], [''exp'', ''3'', ''/b'', ''exp:b'']] [''exp''] =
     Inl (Errorf ''%s: variant %d noncontiguous'' [StrArg ''exp'', IntArg 3])"
proof -
  let ?records = "[[''exp'', ''1'', ''/a'', ''exp:a''], [''exp'', ''3'', ''/b'', ''exp:b'']]"
  let ?vs = "[\<lparr>Ordinal = 1, URL = ''/a'', Tag = ''exp:a''\<rparr>,
              \<lparr>Ordinal = 3, URL = ''/b'', Tag = ''exp:b''\<rparr>]"
  let ?m = "[(''exp'', ?vs)]"
  have h1: "read_records ?records 0 [] = Inr ?m"
    by code_simp
  have h2: "distinct [''exp'']" by simp
  have h3: "set [''exp''] = fst ` set ?m" by simp
  have h4: "(''exp'', ?vs) \<in> set ?m" by simp
  have sorted: "sort_key Ordinal ?vs = ?vs" by simp
  have h5: "map Ordinal (sort_key Ordinal ?vs) \<noteq> [1..int (length ?vs)]"
    by (simp add: upto_rec1)
  from ParseExperiments_noncontiguous [OF h1 h2 h3 h4 h5]
  obtain name' vs' k where in_m: "(name', vs') \<in> set ?m" and k: "k < length vs'"
    and before: "\<forall>j<k. Ordinal (sort_key Ordinal vs' ! j) = int j + 1"
    and at: "Ordinal (sort_key Ordinal vs' ! k) \<noteq> int k + 1"
    and res: "ParseExperiments ?records [''exp''] =
             Inl (Errorf ''%s: variant %d noncontiguous''
                    [StrArg name', IntArg (Ordinal (sort_key Ordinal vs' ! k))])"
    by blast
  from in_m have eq: "name' = ''exp''" "vs' = ?vs" by simp_all
  from k eq have "k = 0 \<or> k = 1" by auto
  moreover have "k \<noteq> 0"
  proof
    assume "k = 0"
    with at eq sorted show False by simp
  qed
  ultimately have "k = 1" by simp
  with res eq sorted have "ParseExperiments ?records [''exp''] =
     Inl (Errorf ''%s: variant %d noncontiguous'' [StrArg ''exp'', IntArg 3])"
    by simp
  moreover from h5 have "map Ordinal (sort_key Ordinal ?vs) \<noteq> [1..2]" by simp
  ultimately show ?thesis using h1 by simp
qed

end
